theory Spec2Isabelle
  imports Main "HOL-Library.Word" "HOL-Library.Sublist"
begin

unbundle bit_operations_syntax

section \<open>Conventions\<close>

text \<open>
  A C string is modelled by the list of its bytes before the terminating NUL, so
  \<open>strlen s\<close> is \<open>length s\<close>. A buffer that the code fills is modelled by the list of
  the bytes stored into it, from offset 0 and including every terminator: its length is
  the number of bytes of the caller's array that were written.
\<close>

definition NUL :: char where
  "NUL = CHR 0x00"

definition SLASH :: char where
  "SLASH = CHR ''/''"

text \<open>The error numbers of \<open>errno.h\<close> (Linux values).\<close>

definition EPERM :: int where "EPERM = 1"
definition ENOENT :: int where "ENOENT = 2"
definition EIO :: int where "EIO = 5"
definition EINVAL :: int where "EINVAL = 22"
definition ENAMETOOLONG :: int where "ENAMETOOLONG = 36"

text \<open>
  The macros of \<open>unionfs.h\<close> that the two source files use. The header is not among the
  sources, so the three values are parameters of every function that reads them.
\<close>

record macros =
  PATHLEN_MAX :: nat
  HIDETAG :: string
  METADIR :: string

section \<open>string.c\<close>

subsection \<open>whiteout_tag\<close>

text \<open>
  \<open>strstr haystack needle\<close>: the offset of the first occurrence of \<open>needle\<close>, \<open>None\<close> for
  the C library's NULL. The empty needle is found at offset 0.
\<close>

fun strstr :: "string \<Rightarrow> string \<Rightarrow> nat option" where
  "strstr [] needle = (if needle = [] then Some 0 else None)"
| "strstr (c # cs) needle =
     (if prefix needle (c # cs) then Some 0 else map_option Suc (strstr cs needle))"

text \<open>
  The returned pointer \<open>tag\<close> is modelled by its offset in \<open>fname\<close>; \<open>tag != fname\<close> is
  \<open>off \<noteq> 0\<close> and \<open>strlen(tag)\<close> is the length of what follows the offset.
\<close>

definition whiteout_tag :: "macros \<Rightarrow> string \<Rightarrow> nat option" where
  "whiteout_tag K fname =
     (case strstr fname (HIDETAG K) of
        None \<Rightarrow> None
      | Some tag \<Rightarrow>
          if tag \<noteq> 0 \<and> length fname - tag = length (HIDETAG K) then Some tag else None)"

subsection \<open>build_path\<close>

text \<open>
  \<open>store buf off bytes\<close> is \<open>memcpy(buf + off, bytes, length bytes)\<close> on the list of stored
  bytes; every store of \<open>build_path\<close> is at an offset that is at most the number of bytes
  stored so far.
\<close>

definition store :: "char list \<Rightarrow> nat \<Rightarrow> char list \<Rightarrow> char list" where
  "store buf off bytes = take off buf @ bytes @ drop (off + length bytes) buf"

text \<open>\<open>arg[0]\<close> of a C string: the terminator when the string is empty.\<close>

definition first_char :: "string \<Rightarrow> char" where
  "first_char arg = (case arg of [] \<Rightarrow> NUL | c # _ \<Rightarrow> c)"

text \<open>The bytes of a buffer read as a C string: up to the first NUL.\<close>

definition c_str :: "char list \<Rightarrow> string" where
  "c_str buf = takeWhile (\<lambda>c. c \<noteq> NUL) buf"

text \<open>
  The \<open>while\<close> loop of \<open>build_path\<close> over the remaining variadic arguments (the list ends
  where the source reads the NULL sentinel). The pointer \<open>path\<close> and the counter \<open>len\<close>
  move together, so \<open>len\<close> is also the offset of \<open>path\<close> in the buffer, and \<open>path[-1]\<close> is
  \<open>buf ! (len - 1)\<close>. The result is the returned value and the bytes stored.
\<close>

fun build_path_loop :: "nat \<Rightarrow> char list \<Rightarrow> nat \<Rightarrow> string list \<Rightarrow> int \<times> char list" where
  "build_path_loop max_len buf len [] = (0, store buf len [NUL])"
| "build_path_loop max_len buf len (arg # args) =
     (let (buf1, len1) =
            (if buf ! (len - 1) = SLASH \<and> first_char arg = SLASH then (buf, len - 1)
             else if buf ! (len - 1) \<noteq> SLASH \<and> first_char arg \<noteq> SLASH
               then (store buf len [SLASH], len + 1)
             else (buf, len));
          arg_len = length arg
      in if len1 + arg_len + 1 > max_len
         then (- ENAMETOOLONG, store buf1 len1 [NUL])
         else build_path_loop max_len (store buf1 len1 arg) (len1 + arg_len) args)"

text \<open>
  \<open>build_path path max_len callfunc line ...\<close>: the arguments \<open>callfunc\<close> and \<open>line\<close> only
  feed the log and are left out. An empty list is a call whose first variadic argument
  is NULL.
\<close>

definition build_path :: "nat \<Rightarrow> string list \<Rightarrow> int \<times> char list" where
  "build_path max_len args =
     (case args of
        [] \<Rightarrow> (- EIO, [NUL])
      | arg # rest \<Rightarrow>
          if length arg = 0 then (- EIO, [NUL])
          else if 0 + length arg + 1 > max_len then (- ENAMETOOLONG, [NUL])
          else build_path_loop max_len (store [NUL] 0 arg) (0 + length arg) rest)"

subsection \<open>u_dirname\<close>

text \<open>
  \<open>strrchr ret '/'\<close> as the offset of the last slash. The \<open>strdup\<close> failure branch
  returns NULL, which is \<open>None\<close>; the model's allocation never fails.
\<close>

fun strrchr :: "string \<Rightarrow> char \<Rightarrow> nat option" where
  "strrchr [] ch = None"
| "strrchr (c # cs) ch =
     (case strrchr cs ch of
        Some i \<Rightarrow> Some (Suc i)
      | None \<Rightarrow> if c = ch then Some 0 else None)"

definition u_dirname :: "string \<Rightarrow> string option" where
  "u_dirname p =
     (case strrchr p SLASH of
        Some ri \<Rightarrow> Some (take ri p)
      | None \<Rightarrow> Some ''.'')"

subsection \<open>elfhash\<close>

text \<open>
  \<open>*str\<close> has type \<open>char\<close>, whose signedness the C implementation chooses: where plain
  \<open>char\<close> is signed (x86), a byte above 0x7F is a negative \<open>int\<close> and is sign-extended when
  it is added to the \<open>unsigned int\<close>; where it is unsigned (ARM), the byte value is added.
  The flag \<open>signed_char\<close> selects the implementation.
\<close>

definition char_value :: "bool \<Rightarrow> char \<Rightarrow> 32 word" where
  "char_value signed_char c =
     (if signed_char \<and> 128 \<le> (of_char c :: nat)
      then word_of_int (int (of_char c :: nat) - 256)
      else of_char c)"

definition elfhash_step :: "bool \<Rightarrow> 32 word \<Rightarrow> char \<Rightarrow> 32 word" where
  "elfhash_step signed_char hash c =
     (let hash1 = push_bit 4 hash + char_value signed_char c;
          highbyte = hash1 AND 0xF0000000;
          hash2 = (if highbyte \<noteq> 0 then hash1 XOR drop_bit 24 highbyte else hash1)
      in hash2 AND NOT highbyte)"

fun elfhash_loop :: "bool \<Rightarrow> 32 word \<Rightarrow> string \<Rightarrow> 32 word" where
  "elfhash_loop signed_char hash [] = hash"
| "elfhash_loop signed_char hash (c # str) =
     elfhash_loop signed_char (elfhash_step signed_char hash c) str"

definition elfhash :: "bool \<Rightarrow> string \<Rightarrow> 32 word" where
  "elfhash signed_char str = elfhash_loop signed_char 0 str"

definition string_hash :: "bool \<Rightarrow> string \<Rightarrow> 32 word" where
  "string_hash signed_char s = elfhash signed_char s"

section \<open>The collaborators of general.c\<close>

subsection \<open>Configuration\<close>

text \<open>
  \<open>uopt\<close> is the process-wide option structure of \<open>opts.h\<close>. The array \<open>branches\<close>
  holds exactly \<open>nbranches\<close> entries, so the counter is the length of the list.
\<close>

record branch_entry_t =
  path :: string
  path_len :: nat

record uopt_t =
  cow_enabled :: bool
  branches :: "branch_entry_t list"

definition nbranches :: "uopt_t \<Rightarrow> int" where
  "nbranches uopt = int (length (branches uopt))"

datatype filetype_t = NOT_EXISTING | IS_DIR | IS_FILE

datatype whiteout = WHITEOUT_FILE | WHITEOUT_DIR

record fuse_context =
  uid :: nat
  gid :: nat

subsection \<open>Undefined behaviour as a value\<close>

text \<open>
  Where the C code would read \<open>uopt.branches\<close> outside its \<open>nbranches\<close> entries, store
  more bytes into a \<open>char[PATHLEN_MAX]\<close> array than it holds, or start a pointer walk
  outside the string it walks, the model stops with a fault that says so.
\<close>

datatype fault =
    BranchIndex int
  | BufferOverrun nat
  | WalkOutOfBounds nat

subsection \<open>The host file system\<close>

text \<open>
  The POSIX calls are not code of the repository. The model keeps, for every path
  string, the entry it names (if any) with its type and owner, and a predicate
  \<open>refuses\<close> that says on which paths the host refuses a change (permissions, a
  read-only file system, a missing parent, a non-empty directory), so that every call
  that modifies the file system can fail.
\<close>

datatype st_mode = S_IFREG | S_IFDIR

record inode =
  st_mode :: st_mode
  st_uid :: nat
  st_gid :: nat

record filesystem =
  entries :: "string \<Rightarrow> inode option"
  refuses :: "string \<Rightarrow> bool"

definition lstat :: "filesystem \<Rightarrow> string \<Rightarrow> int \<times> inode option" where
  "lstat fs p = (case entries fs p of None \<Rightarrow> (- 1, None) | Some st \<Rightarrow> (0, Some st))"

definition unlink :: "filesystem \<Rightarrow> string \<Rightarrow> int \<times> filesystem" where
  "unlink fs p =
     (case entries fs p of
        None \<Rightarrow> (- 1, fs)
      | Some st \<Rightarrow>
          if st_mode st = S_IFDIR \<or> refuses fs p then (- 1, fs)
          else (0, fs\<lparr>entries := (entries fs)(p := None)\<rparr>))"

definition rmdir :: "filesystem \<Rightarrow> string \<Rightarrow> int \<times> filesystem" where
  "rmdir fs p =
     (case entries fs p of
        None \<Rightarrow> (- 1, fs)
      | Some st \<Rightarrow>
          if st_mode st \<noteq> S_IFDIR \<or> refuses fs p then (- 1, fs)
          else (0, fs\<lparr>entries := (entries fs)(p := None)\<rparr>))"

text \<open>\<open>open(p, O_WRONLY | O_CREAT, S_IRUSR | S_IWUSR)\<close>: the descriptor, or -1.\<close>

definition open_creat :: "filesystem \<Rightarrow> string \<Rightarrow> int \<times> filesystem" where
  "open_creat fs p =
     (case entries fs p of
        Some st \<Rightarrow> if st_mode st = S_IFDIR \<or> refuses fs p then (- 1, fs) else (3, fs)
      | None \<Rightarrow>
          if refuses fs p then (- 1, fs)
          else (3, fs\<lparr>entries := (entries fs)(p \<mapsto> \<lparr>st_mode = S_IFREG, st_uid = 0, st_gid = 0\<rparr>)\<rparr>))"

definition close :: "filesystem \<Rightarrow> int \<Rightarrow> int \<times> filesystem" where
  "close fs fd = (0, fs)"

text \<open>\<open>mkdir(p, S_IRWXU)\<close> fails with EEXIST on a path that names any entry.\<close>

definition mkdir :: "filesystem \<Rightarrow> string \<Rightarrow> int \<times> filesystem" where
  "mkdir fs p =
     (case entries fs p of
        Some st \<Rightarrow> (- 1, fs)
      | None \<Rightarrow>
          if refuses fs p then (- 1, fs)
          else (0, fs\<lparr>entries := (entries fs)(p \<mapsto> \<lparr>st_mode = S_IFDIR, st_uid = 0, st_gid = 0\<rparr>)\<rparr>))"

text \<open>\<open>lchown\<close>: the returned value, \<open>errno\<close> after the call, and the file system.\<close>

definition lchown :: "filesystem \<Rightarrow> string \<Rightarrow> nat \<Rightarrow> nat \<Rightarrow> int \<times> int \<times> filesystem" where
  "lchown fs p owner grp =
     (case entries fs p of
        None \<Rightarrow> (- 1, ENOENT, fs)
      | Some st \<Rightarrow>
          if refuses fs p then (- 1, EPERM, fs)
          else (0, 0, fs\<lparr>entries := (entries fs)(p \<mapsto> st\<lparr>st_uid := owner, st_gid := grp\<rparr>)\<rparr>))"

subsection \<open>The macro BUILD_PATH and strcat on a path buffer\<close>

text \<open>
  Modelled from the spec: the macro \<open>BUILD_PATH\<close> of \<open>string.h\<close> is not among the
  sources. Every path buffer has the fixed maximum capacity, and construction that
  would exceed the fixed maximum fails with NameTooLong (the comment of \<open>build_path\<close>
  names the bound: ``check if the sum of the strings is larger than PATHLEN_MAX''), so the
  macro is \<open>build_path\<close> with \<open>max_len = PATHLEN_MAX\<close>, the size of the
  \<open>char[PATHLEN_MAX]\<close> array it is given. The second component of the result is the
  array read as a C string; bytes stored past the end of the array are a fault.
\<close>

definition BUILD_PATH :: "macros \<Rightarrow> string list \<Rightarrow> fault + int \<times> string" where
  "BUILD_PATH K args =
     (let (res, buf) = build_path (PATHLEN_MAX K) args
      in if length buf > PATHLEN_MAX K then Inl (BufferOverrun (length buf))
         else Inr (res, c_str buf))"

text \<open>
  \<open>strcat(p, src)\<close> on a \<open>char p[PATHLEN_MAX]\<close> that holds the string \<open>dst\<close>: it stores
  the bytes of \<open>src\<close> and a terminator after \<open>dst\<close> and checks nothing itself; bytes
  stored past the end of the array are a fault.
\<close>

definition strcat :: "macros \<Rightarrow> string \<Rightarrow> string \<Rightarrow> fault + string" where
  "strcat K dst src =
     (if length dst + length src + 1 > PATHLEN_MAX K
      then Inl (BufferOverrun (length dst + length src + 1))
      else Inr (dst @ src))"

section \<open>general.c\<close>

subsection \<open>filedir_hidden and path_hidden\<close>

text \<open>
  \<open>path\<close> is a C string and \<open>length\<close> at most its length (as at the only call site), so
  the first \<open>memcpy\<close> copies \<open>take length path\<close>. The local array receives
  \<open>length + tag_length + 1\<close> bytes, after the check.
\<close>

definition filedir_hidden :: "macros \<Rightarrow> uopt_t \<Rightarrow> filesystem \<Rightarrow> string \<Rightarrow> nat \<Rightarrow> int" where
  "filedir_hidden K uopt fs p len =
     (if \<not> cow_enabled uopt then 0
      else
        let tag_length = length (HIDETAG K);
            len1 = (if len = 0 then length p else len)
        in if len1 + tag_length \<ge> PATHLEN_MAX K then - ENAMETOOLONG
           else if fst (lstat fs (take len1 p @ HIDETAG K)) = 0 then 1
           else 0)"

text \<open>
  The pointer \<open>walk\<close> is its offset in \<open>whiteoutpath\<close>; at the offset \<open>length w\<close> it reads
  the terminator, which is neither a slash nor a name byte.
\<close>

function skip_slashes :: "string \<Rightarrow> nat \<Rightarrow> nat" where
  "skip_slashes w walk =
     (if walk < length w \<and> w ! walk = SLASH then skip_slashes w (walk + 1) else walk)"
  by pat_completeness auto
termination
  by (relation "measure (\<lambda>(w, walk). length w - walk)") auto

function skip_name :: "string \<Rightarrow> nat \<Rightarrow> nat" where
  "skip_name w walk =
     (if walk < length w \<and> w ! walk \<noteq> SLASH then skip_name w (walk + 1) else walk)"
  by pat_completeness auto
termination
  by (relation "measure (\<lambda>(w, walk). length w - walk)") auto

declare skip_slashes.simps [simp del] skip_name.simps [simp del]

lemma skip_slashes_ge: "walk \<le> skip_slashes w walk"
  by (induction w walk rule: skip_slashes.induct) (subst skip_slashes.simps, auto)

lemma skip_name_ge: "walk \<le> skip_name w walk"
  by (induction w walk rule: skip_name.induct) (subst skip_name.simps, auto)

lemma skip_slashes_stop:
  "skip_slashes w walk < length w \<Longrightarrow> w ! skip_slashes w walk \<noteq> SLASH"
  by (induction w walk rule: skip_slashes.induct) (subst (asm) skip_slashes.simps, subst skip_slashes.simps, auto)

lemma skip_name_stop:
  "skip_name w walk < length w \<Longrightarrow> w ! skip_name w walk = SLASH"
  by (induction w walk rule: skip_name.induct) (subst (asm) skip_name.simps, subst skip_name.simps, auto)

lemma skip_name_slash: "walk < length w \<Longrightarrow> w ! walk = SLASH \<Longrightarrow> skip_name w walk = walk"
  by (subst skip_name.simps) simp

lemma skip_name_step: "walk < length w \<Longrightarrow> w ! walk \<noteq> SLASH \<Longrightarrow> walk < skip_name w walk"
  using skip_name_ge [of "walk + 1" w] by (subst skip_name.simps) simp

lemma skip_slashes_step: "walk < length w \<Longrightarrow> w ! walk = SLASH \<Longrightarrow> walk < skip_slashes w walk"
  using skip_slashes_ge [of "walk + 1" w] by (subst skip_slashes.simps) simp

lemma walk_progress:
  assumes "skip_slashes w (skip_name w walk) < length w"
  shows "walk < skip_slashes w (skip_name w walk)"
proof (cases "walk < length w")
  case False
  with skip_name_ge [of walk w] skip_slashes_ge [of "skip_name w walk" w] assms
  show ?thesis by linarith
next
  case True
  show ?thesis
  proof (cases "w ! walk = SLASH")
    case True
    with \<open>walk < length w\<close> show ?thesis
      by (simp add: skip_name_slash skip_slashes_step)
  next
    case False
    with \<open>walk < length w\<close> have "walk < skip_name w walk" by (rule skip_name_step)
    with skip_slashes_ge [of "skip_name w walk" w] show ?thesis by linarith
  qed
qed

text \<open>The \<open>do ... while\<close> loop of \<open>path_hidden\<close>, entered with the offset \<open>walk\<close>.\<close>

function path_hidden_loop :: "macros \<Rightarrow> uopt_t \<Rightarrow> filesystem \<Rightarrow> string \<Rightarrow> nat \<Rightarrow> int" where
  "path_hidden_loop K uopt fs whiteoutpath walk =
     (let walk1 = skip_name whiteoutpath walk;
          res = filedir_hidden K uopt fs whiteoutpath walk1
      in if res \<noteq> 0 then res
         else
           let walk2 = skip_slashes whiteoutpath walk1
           in if walk2 < length whiteoutpath
              then path_hidden_loop K uopt fs whiteoutpath walk2
              else 0)"
  by pat_completeness auto
termination
proof (relation "measure (\<lambda>(K, uopt, fs, w, walk). length w - walk)")
  show "wf (measure (\<lambda>(K, uopt, fs, w, walk). length w - walk))"
    by simp
next
  fix K :: macros and uopt :: uopt_t and fs :: filesystem and w :: string
    and walk walk1 walk2 :: nat and res :: int
  assume "walk1 = skip_name w walk" and "walk2 = skip_slashes w walk1"
    and "walk2 < length w"
  then have "walk < walk2"
    using walk_progress [of w walk] by simp
  with \<open>walk2 < length w\<close>
  show "((K, uopt, fs, w, walk2), (K, uopt, fs, w, walk))
          \<in> measure (\<lambda>(K, uopt, fs, w, walk). length w - walk)"
    by simp
qed

declare path_hidden_loop.simps [simp del]

definition path_hidden :: "macros \<Rightarrow> uopt_t \<Rightarrow> filesystem \<Rightarrow> string \<Rightarrow> int \<Rightarrow> fault + int" where
  "path_hidden K uopt fs upath branch =
     (if \<not> cow_enabled uopt then Inr 0
      else if \<not> (0 \<le> branch \<and> branch < nbranches uopt) then Inl (BranchIndex branch)
      else
        (let b = branches uopt ! nat branch in
         (case BUILD_PATH K [path b, METADIR K, upath] of
            Inl f \<Rightarrow> Inl f
          | Inr (res, whiteoutpath) \<Rightarrow>
              if res \<noteq> 0 then Inr 0
              else
                (let start = path_len b + length (METADIR K) in
                 if start = 0 \<or> start - 1 > length whiteoutpath
                 then Inl (WalkOutOfBounds start)
                 else Inr (path_hidden_loop K uopt fs whiteoutpath
                             (skip_slashes whiteoutpath (start - 1)))))))"

subsection \<open>path_is_dir and remove_hidden\<close>

definition path_is_dir :: "filesystem \<Rightarrow> string \<Rightarrow> filetype_t" where
  "path_is_dir fs p =
     (case lstat fs p of
        (res, Some buf) \<Rightarrow>
          if res = - 1 then NOT_EXISTING
          else if st_mode buf = S_IFDIR then IS_DIR
          else IS_FILE
      | (res, None) \<Rightarrow> NOT_EXISTING)"

text \<open>The \<open>for\<close> loop of \<open>remove_hidden\<close>, entered with the counter \<open>i\<close>.\<close>

function remove_hidden_for ::
  "macros \<Rightarrow> uopt_t \<Rightarrow> string \<Rightarrow> int \<Rightarrow> int \<Rightarrow> filesystem \<Rightarrow> fault + int \<times> filesystem" where
  "remove_hidden_for K uopt upath maxbranch i fs =
     (if i \<le> maxbranch then
        if \<not> (0 \<le> i \<and> i < nbranches uopt) then Inl (BranchIndex i)
        else
          (case BUILD_PATH K [path (branches uopt ! nat i), METADIR K, upath] of
             Inl f \<Rightarrow> Inl f
           | Inr (res, p) \<Rightarrow>
               if res \<noteq> 0 then Inr (- ENAMETOOLONG, fs)
               else if length p + length (HIDETAG K) > PATHLEN_MAX K
               then Inr (- ENAMETOOLONG, fs)
               else
                 (case strcat K p (HIDETAG K) of
                    Inl f \<Rightarrow> Inl f
                  | Inr p' \<Rightarrow>
                      (case path_is_dir fs p' of
                         IS_FILE \<Rightarrow>
                           remove_hidden_for K uopt upath maxbranch (i + 1) (snd (unlink fs p'))
                       | IS_DIR \<Rightarrow>
                           remove_hidden_for K uopt upath maxbranch (i + 1) (snd (rmdir fs p'))
                       | NOT_EXISTING \<Rightarrow>
                           remove_hidden_for K uopt upath maxbranch (i + 1) fs)))
      else Inr (0, fs))"
  by pat_completeness auto
termination
  by (relation "measure (\<lambda>(K, uopt, upath, maxbranch, i, fs). nat (maxbranch + 1 - i))") auto

declare remove_hidden_for.simps [simp del]

definition remove_hidden ::
  "macros \<Rightarrow> uopt_t \<Rightarrow> filesystem \<Rightarrow> string \<Rightarrow> int \<Rightarrow> fault + int \<times> filesystem" where
  "remove_hidden K uopt fs upath maxbranch =
     (if \<not> cow_enabled uopt then Inr (0, fs)
      else
        let maxbranch1 = (if maxbranch = - 1 then nbranches uopt else maxbranch)
        in remove_hidden_for K uopt upath maxbranch1 0 fs)"

subsection \<open>do_create_whiteout, hide_file and hide_dir\<close>

text \<open>
  The prefixes of a directory name that end a path component: the directories that lead
  to it, the outermost first.
\<close>

definition dir_prefixes :: "string \<Rightarrow> string list" where
  "dir_prefixes d =
     map (\<lambda>n. take n d)
       (filter (\<lambda>n. d ! (n - 1) \<noteq> SLASH \<and> (n = length d \<or> d ! n = SLASH)) [1..<Suc (length d)])"

text \<open>
  Modelled from the spec: \<open>path_create_cutlast\<close> (\<open>cow.c\<close>) is not among the sources. It
  ``ensures the Metadata Tree directories along that path exist, creating any missing
  ones'': for the parent directory of the given path (\<open>u_dirname\<close>), every directory that
  leads to it is made below the root of the writable branch unless an entry of that
  name exists. Its result is not returned: \<open>do_create_whiteout\<close> ignores it.
\<close>

definition path_create_cutlast ::
  "macros \<Rightarrow> uopt_t \<Rightarrow> filesystem \<Rightarrow> string \<Rightarrow> nat \<Rightarrow> nat \<Rightarrow> filesystem" where
  "path_create_cutlast K uopt fs p nbranch_ro nbranch_rw =
     (case u_dirname p of
        None \<Rightarrow> fs
      | Some dname \<Rightarrow>
          foldl (\<lambda>fs1 d. snd (mkdir fs1 (path (branches uopt ! nbranch_rw) @ d)))
            fs (dir_prefixes dname))"

definition do_create_whiteout ::
  "macros \<Rightarrow> uopt_t \<Rightarrow> filesystem \<Rightarrow> string \<Rightarrow> int \<Rightarrow> whiteout \<Rightarrow> fault + int \<times> filesystem" where
  "do_create_whiteout K uopt fs upath branch_rw mode =
     (case BUILD_PATH K [METADIR K, upath] of
        Inl f \<Rightarrow> Inl f
      | Inr (res1, metapath) \<Rightarrow>
          if res1 \<noteq> 0 then Inr (- 1, fs)
          else if \<not> (0 \<le> branch_rw \<and> branch_rw < nbranches uopt)
          then Inl (BranchIndex branch_rw)
          else
            (let fs1 = path_create_cutlast K uopt fs metapath (nat branch_rw) (nat branch_rw)
             in (case BUILD_PATH K [path (branches uopt ! nat branch_rw), metapath] of
                   Inl f \<Rightarrow> Inl f
                 | Inr (res2, p) \<Rightarrow>
                     if res2 \<noteq> 0 then Inr (- 1, fs1)
                     else
                       (case strcat K p (HIDETAG K) of
                          Inl f \<Rightarrow> Inl f
                        | Inr p' \<Rightarrow>
                            if mode = WHITEOUT_FILE then
                              (let (res, fs2) = open_creat fs1 p'
                               in if res = - 1 then Inr (- 1, fs2) else Inr (close fs2 res))
                            else Inr (mkdir fs1 p')))))"

definition hide_file :: "macros \<Rightarrow> uopt_t \<Rightarrow> filesystem \<Rightarrow> string \<Rightarrow> int \<Rightarrow> fault + int \<times> filesystem" where
  "hide_file K uopt fs upath branch_rw = do_create_whiteout K uopt fs upath branch_rw WHITEOUT_FILE"

definition hide_dir :: "macros \<Rightarrow> uopt_t \<Rightarrow> filesystem \<Rightarrow> string \<Rightarrow> int \<Rightarrow> fault + int \<times> filesystem" where
  "hide_dir K uopt fs upath branch_rw = do_create_whiteout K uopt fs upath branch_rw WHITEOUT_DIR"

subsection \<open>set_owner\<close>

text \<open>\<open>ctx\<close> is what \<open>fuse_get_context()\<close> returns for the request being served.\<close>

definition set_owner :: "filesystem \<Rightarrow> fuse_context \<Rightarrow> string \<Rightarrow> int \<times> filesystem" where
  "set_owner fs ctx p =
     (if uid ctx \<noteq> 0 \<and> gid ctx \<noteq> 0 then
        (let (res, errno, fs1) = lchown fs p (uid ctx) (gid ctx)
         in if res \<noteq> 0 then (- errno, fs1) else (0, fs1))
      else (0, fs))"

section \<open>Notions used in the statements\<close>

subsection \<open>Joining path segments\<close>

text \<open>
  What \<open>build_path\<close> leaves of the text written so far before it appends the next
  segment: one slash is dropped where both sides carry one, one is added where neither
  does.
\<close>

definition joint :: "string \<Rightarrow> string \<Rightarrow> string" where
  "joint acc arg =
     (if last acc = SLASH \<and> first_char arg = SLASH then butlast acc
      else if last acc \<noteq> SLASH \<and> first_char arg \<noteq> SLASH then acc @ [SLASH]
      else acc)"

subsection \<open>The layout of a branch\<close>

text \<open>
  The registry stores the root of every branch with a trailing slash and its length in
  \<open>path_len\<close>; the name of the metadata directory ends with a slash and does not start
  with one; no string holds a NUL byte. \<open>path_hidden\<close> computes the start of its walk from
  these facts.
\<close>

definition branch_layout :: "macros \<Rightarrow> branch_entry_t \<Rightarrow> bool" where
  "branch_layout K b \<longleftrightarrow>
     path b \<noteq> [] \<and> last (path b) = SLASH \<and> path_len b = length (path b) \<and>
     NUL \<notin> set (path b) \<and>
     METADIR K \<noteq> [] \<and> hd (METADIR K) \<noteq> SLASH \<and> last (METADIR K) = SLASH \<and>
     NUL \<notin> set (METADIR K)"

text \<open>
  The text that stands before the union path in the marker paths of a branch: the root,
  and the metadata directory without its slash when the union path brings its own.
\<close>

definition meta_base :: "macros \<Rightarrow> string \<Rightarrow> string" where
  "meta_base K upath =
     (if first_char upath = SLASH then butlast (METADIR K) else METADIR K)"

definition whiteout_base :: "macros \<Rightarrow> branch_entry_t \<Rightarrow> string \<Rightarrow> string" where
  "whiteout_base K b upath = path b @ meta_base K upath"

subsection \<open>The prefixes of a union path\<close>

text \<open>
  A prefix of \<open>n\<close> bytes ends a path component when its last byte is not a slash and the
  path ends there or continues with a slash. The prefixes tested for a marker are those,
  the root-most first; a path with no component (empty, or slashes only) is tested whole.
\<close>

definition component_end :: "string \<Rightarrow> nat \<Rightarrow> bool" where
  "component_end p n \<longleftrightarrow>
     0 < n \<and> n \<le> length p \<and> p ! (n - 1) \<noteq> SLASH \<and> (n = length p \<or> p ! n = SLASH)"

definition component_ends :: "string \<Rightarrow> nat list" where
  "component_ends p = filter (component_end p) [1..<Suc (length p)]"

definition path_prefixes :: "string \<Rightarrow> string list" where
  "path_prefixes p =
     (if component_ends p = [] then [p] else map (\<lambda>n. take n p) (component_ends p))"

definition marker_at :: "macros \<Rightarrow> filesystem \<Rightarrow> string \<Rightarrow> bool" where
  "marker_at K fs q \<longleftrightarrow> entries fs (q @ HIDETAG K) \<noteq> None"

definition tag_fits :: "macros \<Rightarrow> nat \<Rightarrow> bool" where
  "tag_fits K n \<longleftrightarrow> n + length (HIDETAG K) < PATHLEN_MAX K"

subsection \<open>Removing markers\<close>

text \<open>
  The removal of one marker by its type, whatever the outcome of the deletion: a file
  marker is unlinked, a directory marker is removed as a directory, an absent one is
  skipped.
\<close>

definition remove_marker :: "filesystem \<Rightarrow> string \<Rightarrow> filesystem" where
  "remove_marker fs m =
     (case entries fs m of
        None \<Rightarrow> fs
      | Some st \<Rightarrow> if st_mode st = S_IFDIR then snd (rmdir fs m) else snd (unlink fs m))"

text \<open>
  The marker path that \<open>remove_hidden\<close> builds for a branch: the string that
  \<open>BUILD_PATH\<close> leaves in the buffer, followed by the tag.
\<close>

definition marker_path :: "macros \<Rightarrow> branch_entry_t \<Rightarrow> string \<Rightarrow> string" where
  "marker_path K b upath =
     c_str (snd (build_path (PATHLEN_MAX K) [path b, METADIR K, upath])) @ HIDETAG K"

text \<open>
  The branch \<open>k\<close> exists, \<open>BUILD_PATH\<close> succeeds for it, and the result with the tag and
  the terminator fits the path buffer; or the branch exists and \<open>BUILD_PATH\<close> fails or
  the result with the tag is longer than the buffer.
\<close>

definition marker_fits :: "macros \<Rightarrow> uopt_t \<Rightarrow> string \<Rightarrow> int \<Rightarrow> bool" where
  "marker_fits K uopt upath k \<longleftrightarrow>
     0 \<le> k \<and> k < nbranches uopt \<and>
     (case BUILD_PATH K [path (branches uopt ! nat k), METADIR K, upath] of
        Inl f \<Rightarrow> False
      | Inr (res, p) \<Rightarrow> res = 0 \<and> length p + length (HIDETAG K) < PATHLEN_MAX K)"

definition marker_too_long :: "macros \<Rightarrow> uopt_t \<Rightarrow> string \<Rightarrow> int \<Rightarrow> bool" where
  "marker_too_long K uopt upath k \<longleftrightarrow>
     0 \<le> k \<and> k < nbranches uopt \<and>
     (case BUILD_PATH K [path (branches uopt ! nat k), METADIR K, upath] of
        Inl f \<Rightarrow> False
      | Inr (res, p) \<Rightarrow> res \<noteq> 0 \<or> length p + length (HIDETAG K) > PATHLEN_MAX K)"

subsection \<open>Directories made on the way to a marker\<close>

text \<open>
  A path is settled when \<open>mkdir\<close> cannot change the file system there: an entry of that
  name exists or the host refuses the change.
\<close>

definition settled :: "filesystem \<Rightarrow> string \<Rightarrow> bool" where
  "settled fs d \<longleftrightarrow> entries fs d \<noteq> None \<or> refuses fs d"

definition make_dirs :: "filesystem \<Rightarrow> string list \<Rightarrow> filesystem" where
  "make_dirs fs ds = foldl (\<lambda>fs1 d. snd (mkdir fs1 d)) fs ds"

subsection \<open>The hash of the specification\<close>

text \<open>
  The procedure in the words of the specification, on the unsigned value of each byte:
  starting from 0, for every byte \<open>c\<close>, \<open>hash = (hash << 4) + c\<close>; take
  \<open>hash & 0xF0000000\<close>; if it is not zero, XOR it shifted down by 24 bits into \<open>hash\<close>, then
  clear those high bits.
\<close>

definition spec_hash_step :: "32 word \<Rightarrow> char \<Rightarrow> 32 word" where
  "spec_hash_step hash c =
     (let h = push_bit 4 hash + of_char c;
          top = h AND 0xF0000000
      in if top \<noteq> 0 then (h XOR drop_bit 24 top) AND NOT top else h)"

definition spec_string_hash :: "string \<Rightarrow> 32 word" where
  "spec_string_hash s = foldl spec_hash_step 0 s"

section \<open>Example configuration\<close>

text \<open>
  The values that the macros have in the distributed \<open>unionfs.h\<close>, a registry of two
  branches whose roots end with a slash, and a few file systems.
\<close>

definition unionfs_macros :: macros where
  "unionfs_macros = \<lparr>PATHLEN_MAX = 1024, HIDETAG = ''_HIDDEN~'', METADIR = ''.unionfs/''\<rparr>"

definition two_branches :: uopt_t where
  "two_branches =
     \<lparr>cow_enabled = True,
      branches = [\<lparr>path = ''/rw/'', path_len = 4\<rparr>, \<lparr>path = ''/ro/'', path_len = 4\<rparr>]\<rparr>"

definition empty_fs :: filesystem where
  "empty_fs = \<lparr>entries = (\<lambda>p. None), refuses = (\<lambda>p. False)\<rparr>"

definition new_dir :: inode where
  "new_dir = \<lparr>st_mode = S_IFDIR, st_uid = 0, st_gid = 0\<rparr>"

definition regular_file :: inode where
  "regular_file = \<lparr>st_mode = S_IFREG, st_uid = 0, st_gid = 0\<rparr>"

definition marker_fs :: filesystem where
  "marker_fs =
     \<lparr>entries = (\<lambda>p. if p = ''/rw/.unionfs/note.txt_HIDDEN~''
                       then Some \<lparr>st_mode = S_IFREG, st_uid = 0, st_gid = 0\<rparr> else None),
      refuses = (\<lambda>p. False)\<rparr>"

definition dir_hidden_fs :: filesystem where
  "dir_hidden_fs =
     \<lparr>entries = [''/rw/.unionfs/dir_HIDDEN~'' \<mapsto> new_dir], refuses = (\<lambda>p. False)\<rparr>"

definition dir_marker_fs :: filesystem where
  "dir_marker_fs =
     \<lparr>entries = [''/rw/.unionfs'' \<mapsto> new_dir, ''/rw/.unionfs/dir_HIDDEN~'' \<mapsto> new_dir],
      refuses = (\<lambda>p. False)\<rparr>"

definition note_hidden_fs :: filesystem where
  "note_hidden_fs =
     \<lparr>entries = [''/rw/.unionfs'' \<mapsto> new_dir, ''/rw/.unionfs/note.txt_HIDDEN~'' \<mapsto> regular_file],
      refuses = (\<lambda>p. False)\<rparr>"

definition cleanup_fs :: filesystem where
  "cleanup_fs =
     \<lparr>entries = [''/rw/.unionfs/dir_HIDDEN~'' \<mapsto> regular_file,
                 ''/ro/.unionfs/dir_HIDDEN~'' \<mapsto> new_dir],
      refuses = (\<lambda>p. p = ''/ro/.unionfs/dir_HIDDEN~'')\<rparr>"

section \<open>Properties of string.c\<close>

subsection \<open>whiteout_tag\<close>

lemma strstr_Some_iff:
  "strstr h n = Some k \<longleftrightarrow>
     k \<le> length h \<and> prefix n (drop k h) \<and> (\<forall>j<k. \<not> prefix n (drop j h))"
proof (induction h arbitrary: k)
  case Nil
  then show ?case by auto
next
  case (Cons c cs)
  show ?case
  proof (cases "prefix n (c # cs)")
    case True
    then show ?thesis by (cases k) auto
  next
    case False
    show ?thesis
    proof (cases k)
      case 0
      with False show ?thesis by simp
    next
      case (Suc k')
      have "(\<forall>j<Suc k'. \<not> prefix n (drop j (c # cs))) \<longleftrightarrow> (\<forall>j<k'. \<not> prefix n (drop j cs))"
        using False by (auto simp: less_Suc_eq_0_disj)
      with False Suc Cons.IH[of k'] show ?thesis by auto
    qed
  qed
qed

lemma whiteout_tag_strstr:
  "whiteout_tag K name = Some k \<longleftrightarrow>
     strstr name (HIDETAG K) = Some k \<and> k \<noteq> 0 \<and> length name - k = length (HIDETAG K)"
  by (auto simp: whiteout_tag_def split: option.splits)

lemma suffix_at_iff:
  "k \<le> length name \<and> prefix t (drop k name) \<and> length name - k = length t
     \<longleftrightarrow> k + length t = length name \<and> drop k name = t"
proof
  assume a: "k \<le> length name \<and> prefix t (drop k name) \<and> length name - k = length t"
  then obtain zs where zs: "drop k name = t @ zs" by (auto simp: prefix_def)
  have "length (drop k name) = length t" using a by simp
  with zs have "zs = []" by simp
  with zs a show "k + length t = length name \<and> drop k name = t" by auto
next
  assume b: "k + length t = length name \<and> drop k name = t"
  then show "k \<le> length name \<and> prefix t (drop k name) \<and> length name - k = length t"
    by auto
qed

text \<open>
  C6. \<open>whiteout_tag name\<close> returns the offset \<open>k\<close> exactly when \<open>name\<close> ends with the tag at
  offset \<open>k\<close>, the prefix before it is not empty (\<open>0 < k\<close>), and the region that \<open>strstr\<close>
  matched, which starts at the first occurrence of the tag, has the tag's length: the tag
  occurs at no earlier offset. In every other case the result is \<open>None\<close>.
\<close>

theorem whiteout_tag_iff:
  "whiteout_tag K name = Some k \<longleftrightarrow>
     0 < k \<and> k + length (HIDETAG K) = length name \<and> drop k name = HIDETAG K \<and>
     (\<forall>j<k. \<not> prefix (HIDETAG K) (drop j name))"
  unfolding whiteout_tag_strstr strstr_Some_iff
  using suffix_at_iff [of k name "HIDETAG K"] by blast

text \<open>
  The examples of the specification: a name with the tag, the tag alone, a name without
  the tag, and a tag inside a longer trailing run.
\<close>

theorem whiteout_tag_iff_witness:
  "whiteout_tag unionfs_macros ''file_HIDDEN~'' = Some 4
   \<and> whiteout_tag unionfs_macros ''_HIDDEN~'' = None
   \<and> whiteout_tag unionfs_macros ''file'' = None
   \<and> whiteout_tag unionfs_macros ''a_HIDDEN~_HIDDEN~'' = None"
proof -
  have "whiteout_tag unionfs_macros ''file_HIDDEN~'' = Some 4"
    unfolding whiteout_tag_iff [of unionfs_macros "''file_HIDDEN~''" 4]
    by (simp add: unionfs_macros_def less_Suc_eq numeral_nat)
  moreover have "whiteout_tag unionfs_macros ''_HIDDEN~'' = None"
    "whiteout_tag unionfs_macros ''file'' = None"
    "whiteout_tag unionfs_macros ''a_HIDDEN~_HIDDEN~'' = None"
    by (simp_all add: whiteout_tag_def unionfs_macros_def)
  ultimately show ?thesis by simp
qed

subsection \<open>build_path with a missing or empty first segment\<close>

text \<open>
  C7, as stated, does not hold: the value returned for an empty first segment is \<open>- EIO\<close>,
  the number of the input/output error, and not the invalid-argument number \<open>- EINVAL\<close>.
\<close>

theorem build_path_empty_first_not_EINVAL:
  "fst (build_path 1024 ['''', ''foo'']) = - 5
   \<and> fst (build_path 1024 ['''', ''foo'']) \<noteq> - EINVAL"
  by (simp add: build_path_def EIO_def EINVAL_def)

text \<open>
  C7, amended. When the first segment is missing or empty, \<open>build_path\<close> returns \<open>- EIO\<close>,
  which is neither success nor the name-too-long value, and has stored only the
  terminator.
\<close>

theorem build_path_empty_first:
  "args = [] \<or> hd args = [] \<Longrightarrow>
     build_path max_len args = (- EIO, [NUL]) \<and> - EIO \<noteq> (0::int) \<and> - EIO \<noteq> - ENAMETOOLONG"
  by (cases args) (auto simp: build_path_def EIO_def ENAMETOOLONG_def)

theorem build_path_empty_first_witness:
  "build_path 1024 ['''', ''foo''] = (- EIO, [NUL]) \<and> build_path 1024 [] = (- EIO, [NUL])"
  using build_path_empty_first [of "['''', ''foo'']" 1024] build_path_empty_first [of "[]" 1024]
  by simp

subsection \<open>The hash\<close>

lemma elfhash_loop_foldl:
  "elfhash_loop sc h s = foldl (elfhash_step sc) h s"
  by (induction s arbitrary: h) auto

lemma char_value_low: "\<not> sc \<or> (of_char c :: nat) < 128 \<Longrightarrow> char_value sc c = of_char c"
  by (auto simp: char_value_def)

lemma elfhash_step_spec:
  "\<not> sc \<or> (of_char c :: nat) < 128 \<Longrightarrow> elfhash_step sc h c = spec_hash_step h c"
proof -
  assume a: "\<not> sc \<or> (of_char c :: nat) < 128"
  define h1 where "h1 = push_bit 4 h + (of_char c :: 32 word)"
  have clear0: "x AND NOT (0 :: 32 word) = x" for x by simp
  show ?thesis
    unfolding elfhash_step_def spec_hash_step_def char_value_low [OF a] Let_def h1_def [symmetric]
    by (cases "h1 AND 0xF0000000 = 0")
       (simp_all only: clear0 if_True if_False not_True_eq_False not_False_eq_True)
qed

lemma foldl_cong_set:
  "(\<And>a x. x \<in> set xs \<Longrightarrow> f a x = g a x) \<Longrightarrow> foldl f a xs = foldl g a xs"
  by (induction xs arbitrary: a) auto

text \<open>
  C8, as stated, does not hold where plain \<open>char\<close> is signed: the byte 0x80 is added as
  \<open>0xFFFFFF80\<close>, and the hash of the one-byte string is \<open>0x0FFFFF70\<close>, not \<open>0x80\<close>.
\<close>

theorem string_hash_signed_counterexample:
  "string_hash True [CHR 0x80] = 0x0FFFFF70 \<and> spec_string_hash [CHR 0x80] = 0x80
   \<and> string_hash True [CHR 0x80] \<noteq> spec_string_hash [CHR 0x80]"
  by (simp add: string_hash_def elfhash_def elfhash_step_def char_value_def
      spec_string_hash_def spec_hash_step_def)

text \<open>
  C8, amended. Where plain \<open>char\<close> is unsigned, and for every string of bytes up to 0x7F
  on any implementation, \<open>string_hash\<close> is the procedure of the specification; the three
  reference values hold on every implementation.
\<close>

theorem string_hash_spec:
  "(\<not> signed_char \<or> (\<forall>c\<in>set s. (of_char c :: nat) < 128) \<longrightarrow>
      string_hash signed_char s = spec_string_hash s)
   \<and> string_hash signed_char '''' = 0
   \<and> string_hash signed_char ''a'' = 97
   \<and> string_hash signed_char ''ab'' = 1650"
proof -
  have "string_hash signed_char s = spec_string_hash s"
    if "\<not> signed_char \<or> (\<forall>c\<in>set s. (of_char c :: nat) < 128)"
    unfolding string_hash_def elfhash_def elfhash_loop_foldl spec_string_hash_def
    using that by (intro foldl_cong_set elfhash_step_spec) auto
  moreover have "string_hash signed_char '''' = 0 \<and> string_hash signed_char ''a'' = 97
      \<and> string_hash signed_char ''ab'' = 1650"
    by (simp add: string_hash_def elfhash_def elfhash_step_def char_value_def)
  ultimately show ?thesis by blast
qed

theorem string_hash_spec_witness:
  "string_hash True ''ab'' = spec_string_hash ''ab''
   \<and> string_hash False [CHR 0x80, CHR ''a''] = spec_string_hash [CHR 0x80, CHR ''a'']
   \<and> spec_string_hash ''ab'' = 1650"
proof -
  have "string_hash True ''ab'' = spec_string_hash ''ab''"
    using string_hash_spec [of True "''ab''"] by simp
  moreover have "string_hash False [CHR 0x80, CHR ''a''] = spec_string_hash [CHR 0x80, CHR ''a'']"
    using string_hash_spec [of False "[CHR 0x80, CHR ''a'']"] by simp
  moreover have "spec_string_hash ''ab'' = 1650"
    by (simp add: spec_string_hash_def spec_hash_step_def)
  ultimately show ?thesis by simp
qed

subsection \<open>What build_path stores and returns\<close>

lemma store_end: "store acc (length acc) bytes = acc @ bytes"
  by (simp add: store_def)

lemma store_end_snoc: "store (acc @ [c]) (Suc (length acc)) bytes = acc @ c # bytes"
  using store_end [of "acc @ [c]" bytes] by simp

lemma store_before_end:
  "acc \<noteq> [] \<Longrightarrow> bytes \<noteq> [] \<Longrightarrow> store acc (length acc - Suc 0) bytes = butlast acc @ bytes"
  by (cases bytes) (simp_all add: store_def butlast_conv_take)

lemma first_char_SLASH_nonempty: "first_char arg = SLASH \<Longrightarrow> arg \<noteq> []"
  by (auto simp: first_char_def SLASH_def NUL_def)

lemma build_path_loop_Nil: "build_path_loop max_len acc (length acc) [] = (0, acc @ [NUL])"
  by (simp add: store_end)

lemma build_path_loop_Cons:
  assumes "acc \<noteq> []"
  shows "build_path_loop max_len acc (length acc) (arg # args) =
     (if length (joint acc arg) + length arg + 1 > max_len
      then (- ENAMETOOLONG, joint acc arg @ [NUL])
      else build_path_loop max_len (joint acc arg @ arg) (length (joint acc arg @ arg)) args)"
proof -
  have nth: "acc ! (length acc - Suc 0) = last acc"
    using assms by (simp add: last_conv_nth)
  consider (drop) "last acc = SLASH" "first_char arg = SLASH"
    | (add) "last acc \<noteq> SLASH" "first_char arg \<noteq> SLASH"
    | (keep) "(last acc = SLASH) \<noteq> (first_char arg = SLASH)"
    by blast
  then show ?thesis
  proof cases
    case drop
    then have j: "joint acc arg = butlast acc" by (simp add: joint_def)
    from drop have "arg \<noteq> []" by (simp add: first_char_SLASH_nonempty)
    with drop assms show ?thesis
      by (simp add: j nth store_before_end length_butlast)
  next
    case add
    then have j: "joint acc arg = acc @ [SLASH]" by (simp add: joint_def)
    from add show ?thesis
      by (simp add: j nth store_end store_end_snoc)
  next
    case keep
    then have j: "joint acc arg = acc" by (auto simp: joint_def)
    from keep show ?thesis
      by (auto simp: j nth store_end)
  qed
qed

declare build_path_loop.simps [simp del]

lemma build_path_loop_Nil_len:
  "n = length acc \<Longrightarrow> build_path_loop max_len acc n [] = (0, acc @ [NUL])"
  by (simp add: build_path_loop_Nil)

lemma build_path_loop_Cons_len:
  "acc \<noteq> [] \<Longrightarrow> n = length acc \<Longrightarrow>
     build_path_loop max_len acc n (arg # args) =
       (if length (joint acc arg) + length arg + 1 > max_len
        then (- ENAMETOOLONG, joint acc arg @ [NUL])
        else build_path_loop max_len (joint acc arg @ arg) (length (joint acc arg @ arg)) args)"
  by (simp add: build_path_loop_Cons)

lemma build_path_Cons:
  "build_path max_len (arg # rest) =
     (if arg = [] then (- EIO, [NUL])
      else if length arg + 1 > max_len then (- ENAMETOOLONG, [NUL])
      else build_path_loop max_len arg (length arg) rest)"
  by (cases arg) (simp_all add: build_path_def store_def)

lemma c_str_terminated: "NUL \<notin> set s \<Longrightarrow> c_str (s @ NUL # t) = s"
proof -
  assume "NUL \<notin> set s"
  then have "\<forall>x\<in>set s. x \<noteq> NUL" by auto
  then show ?thesis by (simp add: c_str_def)
qed

lemma first_char_hd: "s \<noteq> [] \<Longrightarrow> first_char s = hd s"
  by (cases s) (simp_all add: first_char_def)

lemma layout_metadir:
  assumes "branch_layout K b"
  shows "butlast (METADIR K) \<noteq> []" "hd (butlast (METADIR K)) = hd (METADIR K)"
    "first_char (METADIR K) \<noteq> SLASH"
proof -
  from assms have ne: "METADIR K \<noteq> []" and h: "hd (METADIR K) \<noteq> SLASH"
    and l: "last (METADIR K) = SLASH"
    by (simp_all add: branch_layout_def)
  obtain c cs where m: "METADIR K = c # cs" using ne by (cases "METADIR K") auto
  with h l have "cs \<noteq> []" by auto
  with m show "butlast (METADIR K) \<noteq> []" "hd (butlast (METADIR K)) = hd (METADIR K)"
    by simp_all
  from ne h show "first_char (METADIR K) \<noteq> SLASH" by (simp add: first_char_hd)
qed

lemma length_metadir_pos: "branch_layout K b \<Longrightarrow> 0 < length (METADIR K)"
  by (simp add: branch_layout_def)

lemma joint_root_metadir:
  "branch_layout K b \<Longrightarrow> joint (path b) (METADIR K) = path b"
  using layout_metadir(3) [of K b] by (simp add: joint_def branch_layout_def)

lemma joint_metadir_upath:
  "branch_layout K b \<Longrightarrow> joint (METADIR K) upath = meta_base K upath"
  by (simp add: joint_def branch_layout_def meta_base_def)

lemma joint_whiteout_upath:
  "branch_layout K b \<Longrightarrow> joint (path b @ METADIR K) upath = whiteout_base K b upath"
  by (simp add: joint_def branch_layout_def whiteout_base_def meta_base_def butlast_append)

lemma meta_base_nonempty: "branch_layout K b \<Longrightarrow> meta_base K upath \<noteq> []"
  using layout_metadir(1) [of K b] by (simp add: meta_base_def branch_layout_def)

lemma first_char_meta_base:
  "branch_layout K b \<Longrightarrow> first_char (meta_base K upath @ upath) \<noteq> SLASH"
  using layout_metadir [of K b] meta_base_nonempty [of K b upath]
  by (auto simp: first_char_hd meta_base_def branch_layout_def)

lemma joint_root_metapath:
  "branch_layout K b \<Longrightarrow> joint (path b) (meta_base K upath @ upath) = path b"
  using first_char_meta_base [of K b upath] by (simp add: joint_def branch_layout_def)

lemma length_meta_base:
  assumes "branch_layout K b"
  shows "length (METADIR K) \<le> length (meta_base K upath) + length upath"
proof (cases "first_char upath = SLASH")
  case True
  then have "upath \<noteq> []" by (rule first_char_SLASH_nonempty)
  then have "1 \<le> length upath" by (cases upath) simp_all
  with True show ?thesis by (simp add: meta_base_def)
next
  case False
  then show ?thesis by (simp add: meta_base_def)
qed

lemma whiteout_base_nonempty: "branch_layout K b \<Longrightarrow> whiteout_base K b upath \<noteq> []"
  by (simp add: branch_layout_def whiteout_base_def)

lemma whiteout_base_NUL: "branch_layout K b \<Longrightarrow> NUL \<notin> set (whiteout_base K b upath)"
  by (auto simp: whiteout_base_def meta_base_def branch_layout_def dest: in_set_butlastD)

lemma meta_base_NUL: "branch_layout K b \<Longrightarrow> NUL \<notin> set (meta_base K upath)"
  by (auto simp: meta_base_def branch_layout_def dest: in_set_butlastD)

lemma length_whiteout_base_le:
  "branch_layout K b \<Longrightarrow>
     length (whiteout_base K b upath) \<le> length (path b) + length (METADIR K)"
  by (simp add: whiteout_base_def meta_base_def)

lemma length_whiteout_base_start:
  assumes lay: "branch_layout K b"
  shows "path_len b + length (METADIR K) - 1 \<le> length (whiteout_base K b upath)"
  using lay length_metadir_pos [OF lay]
  by (auto simp: branch_layout_def whiteout_base_def meta_base_def)

lemma build_path_whiteout:
  assumes lay: "branch_layout K b"
  shows "build_path ml [path b, METADIR K, upath] =
     (if length (whiteout_base K b upath) + length upath + 1 \<le> ml
      then (0, whiteout_base K b upath @ upath @ [NUL])
      else (- ENAMETOOLONG,
            if length (path b) + 1 > ml then [NUL]
            else if length (path b) + length (METADIR K) + 1 > ml then path b @ [NUL]
            else whiteout_base K b upath @ [NUL]))"
proof -
  from lay have ne: "path b \<noteq> []" "path b @ METADIR K \<noteq> []"
    by (simp_all add: branch_layout_def)
  have len: "length (path b) + length (METADIR K) \<le> length (whiteout_base K b upath) + length upath"
    using length_meta_base [OF lay, of upath] by (simp add: whiteout_base_def)
  show ?thesis
    using len ne
    by (simp add: build_path_Cons build_path_loop_Cons_len build_path_loop_Nil_len
        joint_root_metadir [OF lay] joint_whiteout_upath [OF lay])
qed

lemma BUILD_PATH_whiteout_fits:
  assumes lay: "branch_layout K b" and nul: "NUL \<notin> set upath"
    and fits: "length (whiteout_base K b upath) + length upath + 1 \<le> PATHLEN_MAX K"
  shows "BUILD_PATH K [path b, METADIR K, upath] = Inr (0, whiteout_base K b upath @ upath)"
proof -
  have "NUL \<notin> set (whiteout_base K b upath @ upath)"
    using whiteout_base_NUL [OF lay] nul by simp
  then have "c_str ((whiteout_base K b upath @ upath) @ NUL # []) = whiteout_base K b upath @ upath"
    by (rule c_str_terminated)
  with fits show ?thesis
    by (simp add: BUILD_PATH_def build_path_whiteout [OF lay])
qed

lemma BUILD_PATH_whiteout_toolong:
  assumes lay: "branch_layout K b"
    and long: "\<not> length (whiteout_base K b upath) + length upath + 1 \<le> PATHLEN_MAX K"
    and pos: "0 < PATHLEN_MAX K"
  shows "\<exists>w. BUILD_PATH K [path b, METADIR K, upath] = Inr (- ENAMETOOLONG, w)"
  using long pos length_whiteout_base_le [OF lay, of upath]
  by (simp add: BUILD_PATH_def build_path_whiteout [OF lay])

lemma build_path_meta:
  assumes lay: "branch_layout K b"
  shows "build_path ml [METADIR K, upath] =
     (if length (meta_base K upath) + length upath + 1 \<le> ml
      then (0, meta_base K upath @ upath @ [NUL])
      else (- ENAMETOOLONG,
            if length (METADIR K) + 1 > ml then [NUL] else meta_base K upath @ [NUL]))"
proof -
  from lay have ne: "METADIR K \<noteq> []" by (simp add: branch_layout_def)
  show ?thesis
    using ne length_meta_base [OF lay, of upath]
    by (simp add: build_path_Cons build_path_loop_Cons_len build_path_loop_Nil_len
        joint_metadir_upath [OF lay])
qed

lemma BUILD_PATH_meta_fits:
  assumes lay: "branch_layout K b" and nul: "NUL \<notin> set upath"
    and fits: "length (meta_base K upath) + length upath + 1 \<le> PATHLEN_MAX K"
  shows "BUILD_PATH K [METADIR K, upath] = Inr (0, meta_base K upath @ upath)"
proof -
  have "NUL \<notin> set (meta_base K upath @ upath)"
    using meta_base_NUL [OF lay] nul by simp
  then have "c_str ((meta_base K upath @ upath) @ NUL # []) = meta_base K upath @ upath"
    by (rule c_str_terminated)
  with fits show ?thesis
    by (simp add: BUILD_PATH_def build_path_meta [OF lay])
qed

lemma build_path_root_meta:
  assumes lay: "branch_layout K b"
  shows "build_path ml [path b, meta_base K upath @ upath] =
     (if length (whiteout_base K b upath) + length upath + 1 \<le> ml
      then (0, whiteout_base K b upath @ upath @ [NUL])
      else (- ENAMETOOLONG, if length (path b) + 1 > ml then [NUL] else path b @ [NUL]))"
proof -
  from lay have ne: "path b \<noteq> []" by (simp add: branch_layout_def)
  show ?thesis
    using ne
    by (simp add: build_path_Cons build_path_loop_Cons_len build_path_loop_Nil_len
        joint_root_metapath [OF lay] whiteout_base_def)
qed

lemma BUILD_PATH_root_meta_fits:
  assumes lay: "branch_layout K b" and nul: "NUL \<notin> set upath"
    and fits: "length (whiteout_base K b upath) + length upath + 1 \<le> PATHLEN_MAX K"
  shows "BUILD_PATH K [path b, meta_base K upath @ upath] = Inr (0, whiteout_base K b upath @ upath)"
proof -
  have "NUL \<notin> set (whiteout_base K b upath @ upath)"
    using whiteout_base_NUL [OF lay] nul by simp
  then have "c_str ((whiteout_base K b upath @ upath) @ NUL # []) = whiteout_base K b upath @ upath"
    by (rule c_str_terminated)
  with fits show ?thesis
    by (simp add: BUILD_PATH_def build_path_root_meta [OF lay])
qed

lemma layout_rw: "branch_layout unionfs_macros \<lparr>path = ''/rw/'', path_len = 4\<rparr>"
  by (simp add: branch_layout_def unionfs_macros_def SLASH_def NUL_def)

lemma layout_ro: "branch_layout unionfs_macros \<lparr>path = ''/ro/'', path_len = 4\<rparr>"
  by (simp add: branch_layout_def unionfs_macros_def SLASH_def NUL_def)

lemma base_rw_slash:
  "whiteout_base unionfs_macros \<lparr>path = ''/rw/'', path_len = 4\<rparr> (CHR ''/'' # s) = ''/rw/.unionfs''"
  by (simp add: whiteout_base_def meta_base_def unionfs_macros_def first_char_def SLASH_def)

lemma two_branches_first:
  "cow_enabled two_branches" "(0::int) < nbranches two_branches"
  "branches two_branches ! nat 0 = \<lparr>path = ''/rw/'', path_len = 4\<rparr>"
  "branches two_branches ! 0 = \<lparr>path = ''/rw/'', path_len = 4\<rparr>"
  by (simp_all add: two_branches_def nbranches_def)

section \<open>Properties of general.c\<close>

subsection \<open>Stores past the end of a path buffer\<close>

lemma do_create_whiteout_overrun:
  assumes idx: "0 \<le> branch_rw" "branch_rw < nbranches uopt"
    and lay: "branch_layout K (branches uopt ! nat branch_rw)"
    and nul: "NUL \<notin> set upath"
    and fits: "length (whiteout_base K (branches uopt ! nat branch_rw) upath) + length upath + 1
                 \<le> PATHLEN_MAX K"
    and over: "length (whiteout_base K (branches uopt ! nat branch_rw) upath) + length upath
                 + length (HIDETAG K) + 1 > PATHLEN_MAX K"
  shows "do_create_whiteout K uopt fs upath branch_rw mode =
           Inl (BufferOverrun (length (whiteout_base K (branches uopt ! nat branch_rw) upath)
                  + length upath + length (HIDETAG K) + 1))"
proof -
  let ?b = "branches uopt ! nat branch_rw"
  have mfits: "length (meta_base K upath) + length upath + 1 \<le> PATHLEN_MAX K"
    using fits by (simp add: whiteout_base_def)
  show ?thesis
    using idx over
    by (simp add: do_create_whiteout_def BUILD_PATH_meta_fits [OF lay nul mfits]
        BUILD_PATH_root_meta_fits [OF lay nul fits] strcat_def Let_def)
qed

lemma remove_hidden_boundary_overrun:
  assumes cow: "cow_enabled uopt" and nb: "0 < nbranches uopt"
    and mb: "0 \<le> maxbranch \<or> maxbranch = - 1"
    and lay: "branch_layout K (branches uopt ! 0)"
    and nul: "NUL \<notin> set upath"
    and tag: "HIDETAG K \<noteq> []"
    and edge: "length (whiteout_base K (branches uopt ! 0) upath) + length upath
                 + length (HIDETAG K) = PATHLEN_MAX K"
  shows "remove_hidden K uopt fs upath maxbranch = Inl (BufferOverrun (PATHLEN_MAX K + 1))"
proof -
  from tag have "0 < length (HIDETAG K)" by simp
  with edge have fits:
    "length (whiteout_base K (branches uopt ! 0) upath) + length upath + 1 \<le> PATHLEN_MAX K"
    by linarith
  define m where "m = (if maxbranch = - 1 then nbranches uopt else maxbranch)"
  have m0: "0 \<le> m" using mb nb by (auto simp: m_def)
  have "remove_hidden_for K uopt upath m 0 fs = Inl (BufferOverrun (PATHLEN_MAX K + 1))"
    using m0 nb edge
    by (subst remove_hidden_for.simps)
       (simp add: BUILD_PATH_whiteout_fits [OF lay nul fits] strcat_def)
  then show ?thesis
    using cow by (simp add: remove_hidden_def m_def)
qed

text \<open>
  C2. No operation may store past the capacity of a path buffer. The code does, in three
  places. \<open>build_path\<close> with \<open>max_len = 5\<close> and the segments \<open>abcd\<close> and \<open>e\<close> writes the
  separator at offset 4, finds the result too long, and writes the terminator at offset
  5: six bytes in a buffer of five, and \<open>-ENAMETOOLONG\<close>; with \<open>max_len = 1024\<close> and a first
  segment of 1023 bytes it stores 1025 bytes. \<open>do_create_whiteout\<close> appends the tag with
  no check: for a union path of 1006 bytes in the branch \<open>/rw/\<close> it stores 1027 bytes into
  its array of 1024. \<open>remove_hidden\<close> checks \<open>strlen(p) + strlen(HIDETAG) > PATHLEN_MAX\<close>,
  which forgets the terminator: for a union path of 1004 bytes it stores 1025 bytes into
  its array of 1024.
\<close>

theorem path_buffer_overruns:
  "build_path 5 [''abcd'', ''e''] = (- ENAMETOOLONG, ''abcd/'' @ [NUL])
   \<and> length (snd (build_path 5 [''abcd'', ''e''])) = 6
   \<and> fst (build_path 1024 [replicate 1023 CHR ''a'', ''e'']) = - ENAMETOOLONG
   \<and> length (snd (build_path 1024 [replicate 1023 CHR ''a'', ''e''])) = 1025
   \<and> do_create_whiteout unionfs_macros two_branches empty_fs
        (CHR ''/'' # replicate 1005 CHR ''a'') 0 WHITEOUT_FILE = Inl (BufferOverrun 1027)
   \<and> remove_hidden unionfs_macros two_branches empty_fs
        (CHR ''/'' # replicate 1003 CHR ''a'') 0 = Inl (BufferOverrun 1025)"
proof -
  have bp: "build_path 5 [''abcd'', ''e''] = (- ENAMETOOLONG, ''abcd/'' @ [NUL])"
    by (simp add: build_path_def build_path_loop.simps store_def first_char_def SLASH_def NUL_def)
  have bq: "build_path 1024 [replicate 1023 CHR ''a'', ''e'']
      = (- ENAMETOOLONG, replicate 1023 CHR ''a'' @ [SLASH, NUL])"
    by (simp add: build_path_Cons build_path_loop_Cons_len joint_def first_char_def SLASH_def)
  have b0: "branches two_branches ! nat 0 = \<lparr>path = ''/rw/'', path_len = 4\<rparr>"
    "branches two_branches ! 0 = \<lparr>path = ''/rw/'', path_len = 4\<rparr>"
    by (simp_all add: two_branches_def)
  have nb: "nbranches two_branches = 2"
    by (simp add: nbranches_def two_branches_def)
  have dc: "do_create_whiteout unionfs_macros two_branches empty_fs
        (CHR ''/'' # replicate 1005 CHR ''a'') 0 WHITEOUT_FILE = Inl (BufferOverrun 1027)"
    by (subst do_create_whiteout_overrun)
       (simp_all add: b0 layout_rw NUL_def base_rw_slash nb, simp_all add: unionfs_macros_def)
  have rh: "remove_hidden unionfs_macros two_branches empty_fs
        (CHR ''/'' # replicate 1003 CHR ''a'') 0 = Inl (BufferOverrun 1025)"
    by (subst remove_hidden_boundary_overrun)
       (simp_all add: b0 layout_rw NUL_def base_rw_slash nb, simp_all add: unionfs_macros_def two_branches_def)
  from bp bq dc rh show ?thesis by simp
qed

subsection \<open>remove_hidden\<close>

lemma path_is_dir_cases:
  "path_is_dir fs p =
     (case entries fs p of
        None \<Rightarrow> NOT_EXISTING
      | Some st \<Rightarrow> if st_mode st = S_IFDIR then IS_DIR else IS_FILE)"
  by (simp add: path_is_dir_def lstat_def split: option.splits)

lemma BUILD_PATH_Inr:
  "BUILD_PATH K args = Inr (res, p) \<Longrightarrow> p = c_str (snd (build_path (PATHLEN_MAX K) args))"
  by (auto simp: BUILD_PATH_def split: prod.splits if_splits)

lemma remove_hidden_for_step:
  assumes good: "marker_fits K uopt upath i" and le: "i \<le> maxbranch"
  shows "remove_hidden_for K uopt upath maxbranch i fs =
           remove_hidden_for K uopt upath maxbranch (i + 1)
             (remove_marker fs (marker_path K (branches uopt ! nat i) upath))"
proof -
  let ?b = "branches uopt ! nat i"
  from good have idx: "0 \<le> i" "i < nbranches uopt"
    by (simp_all add: marker_fits_def)
  from good obtain p where bp: "BUILD_PATH K [path ?b, METADIR K, upath] = Inr (0, p)"
    and len: "length p + length (HIDETAG K) < PATHLEN_MAX K"
    by (auto simp: marker_fits_def split: sum.splits)
  from BUILD_PATH_Inr [OF bp] have mp: "marker_path K ?b upath = p @ HIDETAG K"
    by (simp add: marker_path_def)
  show ?thesis
    using le idx len
    by (subst remove_hidden_for.simps)
       (simp add: bp mp strcat_def path_is_dir_cases remove_marker_def split: option.splits)
qed

lemma remove_hidden_for_prefix:
  assumes "i \<le> j" and "j \<le> maxbranch + 1"
    and "\<forall>k. i \<le> k \<and> k < j \<longrightarrow> marker_fits K uopt upath k"
  shows "remove_hidden_for K uopt upath maxbranch i fs =
           remove_hidden_for K uopt upath maxbranch j
             (foldl remove_marker fs
                (map (\<lambda>k. marker_path K (branches uopt ! nat k) upath) [i..j - 1]))"
  using assms(1-3)
proof (induction "nat (j - i)" arbitrary: i fs)
  case 0
  then have "i = j" by simp
  then show ?case by simp
next
  case (Suc n)
  then have lt: "i < j" by linarith
  with Suc.prems have good: "marker_fits K uopt upath i" and le: "i \<le> maxbranch"
    by auto
  have up: "[i..j - 1] = i # [i + 1..j - 1]"
    using lt by (simp add: upto_rec1)
  have n: "n = nat (j - (i + 1))" using Suc.hyps(2) by linarith
  have IH: "remove_hidden_for K uopt upath maxbranch (i + 1) fs' =
           remove_hidden_for K uopt upath maxbranch j
             (foldl remove_marker fs'
                (map (\<lambda>k. marker_path K (branches uopt ! nat k) upath) [i + 1..j - 1]))" for fs'
    using Suc.hyps(1) [OF n] lt Suc.prems by simp
  show ?case
    by (simp add: remove_hidden_for_step [OF good le] IH up)
qed

lemma remove_hidden_for_done:
  "maxbranch < i \<Longrightarrow> remove_hidden_for K uopt upath maxbranch i fs = Inr (0, fs)"
  by (subst remove_hidden_for.simps) simp

lemma remove_hidden_for_outside:
  "i \<le> maxbranch \<Longrightarrow> \<not> (0 \<le> i \<and> i < nbranches uopt) \<Longrightarrow>
     remove_hidden_for K uopt upath maxbranch i fs = Inl (BranchIndex i)"
  by (subst remove_hidden_for.simps) simp

lemma remove_hidden_for_too_long:
  assumes long: "marker_too_long K uopt upath i" and le: "i \<le> maxbranch"
  shows "remove_hidden_for K uopt upath maxbranch i fs = Inr (- ENAMETOOLONG, fs)"
proof -
  let ?b = "branches uopt ! nat i"
  from long have idx: "0 \<le> i" "i < nbranches uopt"
    by (simp_all add: marker_too_long_def)
  from long obtain res p where bp: "BUILD_PATH K [path ?b, METADIR K, upath] = Inr (res, p)"
    and len: "res \<noteq> 0 \<or> length p + length (HIDETAG K) > PATHLEN_MAX K"
    by (auto simp: marker_too_long_def split: sum.splits)
  show ?thesis
    using le idx len
    by (subst remove_hidden_for.simps) (auto simp: bp)
qed

lemma remove_hidden_for_errors:
  "remove_hidden_for K uopt upath maxbranch i fs = Inr (r, fs') \<Longrightarrow> r = 0 \<or> r = - ENAMETOOLONG"
proof (induction K uopt upath maxbranch i fs rule: remove_hidden_for.induct)
  case (1 K uopt upath maxbranch i fs)
  from "1.prems" show ?case
    apply (subst (asm) remove_hidden_for.simps)
    apply (auto split: if_splits sum.splits prod.splits filetype_t.splits dest: "1.IH")
    done
qed

lemma remove_marker_entries:
  "entries (remove_marker fs m) = (\<lambda>q. if q = m \<and> \<not> refuses fs m then None else entries fs q)"
  by (auto simp: remove_marker_def unlink_def rmdir_def fun_eq_iff split: option.splits)

lemma remove_marker_refuses: "refuses (remove_marker fs m) = refuses fs"
  by (auto simp: remove_marker_def unlink_def rmdir_def split: option.splits)

lemma remove_hidden_all_fit:
  assumes cow: "cow_enabled uopt" and mb: "maxbranch \<noteq> - 1"
    and fit: "\<forall>k. 0 \<le> k \<and> k \<le> maxbranch \<longrightarrow> marker_fits K uopt upath k"
  shows "remove_hidden K uopt fs upath maxbranch =
           Inr (0, foldl remove_marker fs
                     (map (\<lambda>k. marker_path K (branches uopt ! nat k) upath) [0..maxbranch]))"
proof (cases "0 \<le> maxbranch")
  case True
  have "remove_hidden_for K uopt upath maxbranch 0 fs =
          remove_hidden_for K uopt upath maxbranch (maxbranch + 1)
            (foldl remove_marker fs
               (map (\<lambda>k. marker_path K (branches uopt ! nat k) upath) [0..maxbranch + 1 - 1]))"
    using True fit by (intro remove_hidden_for_prefix) auto
  then show ?thesis
    using cow mb by (simp add: remove_hidden_def remove_hidden_for_done)
next
  case False
  then show ?thesis
    using cow mb by (simp add: remove_hidden_def remove_hidden_for_done)
qed

lemma remove_hidden_abort:
  assumes cow: "cow_enabled uopt" and mb: "maxbranch \<noteq> - 1"
    and j: "0 \<le> j" "j \<le> maxbranch"
    and fit: "\<forall>k. 0 \<le> k \<and> k < j \<longrightarrow> marker_fits K uopt upath k"
    and long: "marker_too_long K uopt upath j"
  shows "remove_hidden K uopt fs upath maxbranch =
           Inr (- ENAMETOOLONG, foldl remove_marker fs
                     (map (\<lambda>k. marker_path K (branches uopt ! nat k) upath) [0..j - 1]))"
proof -
  have "remove_hidden_for K uopt upath maxbranch 0 fs =
          remove_hidden_for K uopt upath maxbranch j
            (foldl remove_marker fs
               (map (\<lambda>k. marker_path K (branches uopt ! nat k) upath) [0..j - 1]))"
    using j fit by (intro remove_hidden_for_prefix) auto
  then show ?thesis
    using cow mb j by (simp add: remove_hidden_def remove_hidden_for_too_long [OF long])
qed

lemma remove_hidden_errors:
  "remove_hidden K uopt fs upath maxbranch = Inr (r, fs') \<Longrightarrow> r = 0 \<or> r = - ENAMETOOLONG"
  by (auto simp: remove_hidden_def Let_def split: if_splits dest: remove_hidden_for_errors)

lemma remove_hidden_all_out_of_range:
  assumes cow: "cow_enabled uopt"
    and fit: "\<forall>k. 0 \<le> k \<and> k < nbranches uopt \<longrightarrow> marker_fits K uopt upath k"
  shows "remove_hidden K uopt fs upath (- 1) = Inl (BranchIndex (nbranches uopt))"
proof -
  have n0: "0 \<le> nbranches uopt" by (simp add: nbranches_def)
  have "remove_hidden_for K uopt upath (nbranches uopt) 0 fs =
          remove_hidden_for K uopt upath (nbranches uopt) (nbranches uopt)
            (foldl remove_marker fs
               (map (\<lambda>k. marker_path K (branches uopt ! nat k) upath) [0..nbranches uopt - 1]))"
    using n0 fit by (intro remove_hidden_for_prefix) auto
  then show ?thesis
    using cow by (simp add: remove_hidden_def remove_hidden_for_outside)
qed

text \<open>
  C4. Called with \<open>maxbranch = -1\<close>, \<open>remove_hidden\<close> should attempt the removal in the
  existing branches only, indices 0 to \<open>nbranches - 1\<close>. The code sets \<open>maxbranch\<close> to
  \<open>nbranches\<close> and loops while \<open>i <= maxbranch\<close>: with the two branches of the example it
  goes on to read \<open>uopt.branches[2]\<close>, one entry past the end of the registry. The same
  happens in every registry whose marker paths fit (\<open>remove_hidden_all_out_of_range\<close>).
\<close>

theorem remove_hidden_all_reads_past_registry:
  "nbranches two_branches = 2
   \<and> remove_hidden unionfs_macros two_branches empty_fs ''/note.txt'' (- 1)
       = Inl (BranchIndex 2)"
  by (simp add: remove_hidden_def remove_hidden_for.simps BUILD_PATH_def build_path_def
      build_path_loop.simps store_def first_char_def c_str_def unionfs_macros_def
      two_branches_def SLASH_def NUL_def nbranches_def strcat_def path_is_dir_def lstat_def
      empty_fs_def)

text \<open>
  What \<open>remove_hidden\<close> does where it reads only branches of the registry and no marker
  path has exactly the length at which the terminator falls outside the buffer. It
  returns nothing but 0 and \<open>-ENAMETOOLONG\<close>. With copy-on-write off it does nothing and
  returns 0. Otherwise, when every branch from 0 to \<open>maxbranch\<close> exists and its marker path
  can be built and fits the buffer, it returns 0 and has removed the marker of each of
  these branches in turn by its type, whether or not a marker existed and whether or not
  the host carried out each deletion; and when the marker path of a branch \<open>j\<close> in the range
  cannot be built or is too long while those before it fit, it returns \<open>-ENAMETOOLONG\<close> at
  once, having treated the branches before \<open>j\<close> only. Removing a marker leaves no entry of
  that name unless the host refuses, and changes nothing else.
\<close>

lemma remove_hidden_best_effort:
  "(remove_hidden K uopt fs upath maxbranch = Inr (r, fs') \<longrightarrow> r = 0 \<or> r = - ENAMETOOLONG)
   \<and> (\<not> cow_enabled uopt \<longrightarrow> remove_hidden K uopt fs upath maxbranch = Inr (0, fs))
   \<and> (cow_enabled uopt \<and> maxbranch \<noteq> - 1 \<and>
        (\<forall>k. 0 \<le> k \<and> k \<le> maxbranch \<longrightarrow> marker_fits K uopt upath k) \<longrightarrow>
          remove_hidden K uopt fs upath maxbranch =
            Inr (0, foldl remove_marker fs
                      (map (\<lambda>k. marker_path K (branches uopt ! nat k) upath) [0..maxbranch])))
   \<and> (cow_enabled uopt \<and> maxbranch \<noteq> - 1 \<and> 0 \<le> j \<and> j \<le> maxbranch \<and>
        (\<forall>k. 0 \<le> k \<and> k < j \<longrightarrow> marker_fits K uopt upath k) \<and>
        marker_too_long K uopt upath j \<longrightarrow>
          remove_hidden K uopt fs upath maxbranch =
            Inr (- ENAMETOOLONG, foldl remove_marker fs
                      (map (\<lambda>k. marker_path K (branches uopt ! nat k) upath) [0..j - 1])))
   \<and> entries (remove_marker fs m) =
        (\<lambda>q. if q = m \<and> \<not> refuses fs m then None else entries fs q)
   \<and> refuses (remove_marker fs m) = refuses fs"
  using remove_hidden_errors [of K uopt fs upath maxbranch r fs']
    remove_hidden_all_fit [of uopt maxbranch K upath fs]
    remove_hidden_abort [of uopt maxbranch j K upath fs]
  by (simp add: remove_marker_entries remove_marker_refuses remove_hidden_def)

lemmas eval_BUILD_PATH =
  BUILD_PATH_def build_path_def build_path_loop.simps store_def first_char_def c_str_def
  unionfs_macros_def two_branches_def SLASH_def NUL_def nbranches_def

lemma BUILD_PATH_dir:
  "BUILD_PATH unionfs_macros [''/rw/'', ''.unionfs/'', ''/dir''] = Inr (0, ''/rw/.unionfs/dir'')"
  "BUILD_PATH unionfs_macros [''/ro/'', ''.unionfs/'', ''/dir''] = Inr (0, ''/ro/.unionfs/dir'')"
  by (simp_all add: eval_BUILD_PATH)

lemma two_branches_nth:
  "branches two_branches ! nat 0 = \<lparr>path = ''/rw/'', path_len = 4\<rparr>"
  "branches two_branches ! nat 1 = \<lparr>path = ''/ro/'', path_len = 4\<rparr>"
  "nbranches two_branches = 2"
  by (simp_all add: two_branches_def nbranches_def)

lemma marker_fits_dir:
  "marker_fits unionfs_macros two_branches ''/dir'' 0"
  "marker_fits unionfs_macros two_branches ''/dir'' 1"
proof -
  have md: "METADIR unionfs_macros = ''.unionfs/''" "HIDETAG unionfs_macros = ''_HIDDEN~''"
    "PATHLEN_MAX unionfs_macros = 1024"
    by (simp_all add: unionfs_macros_def)
  show "marker_fits unionfs_macros two_branches ''/dir'' 0"
    unfolding marker_fits_def two_branches_nth md select_convs
    by (simp add: BUILD_PATH_dir)
  show "marker_fits unionfs_macros two_branches ''/dir'' 1"
    unfolding marker_fits_def two_branches_nth md select_convs
    by (simp add: BUILD_PATH_dir)
qed

lemma two_branches_fit:
  assumes "0 \<le> k" "k \<le> 1"
  shows "marker_fits unionfs_macros two_branches ''/dir'' k"
proof -
  from assms have "k = 0 \<or> k = 1" by linarith
  then show ?thesis using marker_fits_dir by blast
qed

lemma marker_path_dir:
  "marker_path unionfs_macros \<lparr>path = ''/rw/'', path_len = 4\<rparr> ''/dir'' = ''/rw/.unionfs/dir_HIDDEN~''"
  "marker_path unionfs_macros \<lparr>path = ''/ro/'', path_len = 4\<rparr> ''/dir'' = ''/ro/.unionfs/dir_HIDDEN~''"
proof -
  have md: "METADIR unionfs_macros = ''.unionfs/''" "HIDETAG unionfs_macros = ''_HIDDEN~''"
    by (simp_all add: unionfs_macros_def)
  show "marker_path unionfs_macros \<lparr>path = ''/rw/'', path_len = 4\<rparr> ''/dir'' = ''/rw/.unionfs/dir_HIDDEN~''"
    using BUILD_PATH_dir(1) [THEN BUILD_PATH_Inr] by (simp add: marker_path_def md)
  show "marker_path unionfs_macros \<lparr>path = ''/ro/'', path_len = 4\<rparr> ''/dir'' = ''/ro/.unionfs/dir_HIDDEN~''"
    using BUILD_PATH_dir(2) [THEN BUILD_PATH_Inr] by (simp add: marker_path_def md)
qed

text \<open>
  A file marker in the first branch and a directory marker in the second that the host
  refuses to remove: the first is gone, the second stays, and the result is 0. On the
  empty file system the result is 0 as well.
\<close>

lemma remove_hidden_best_effort_example:
  "remove_hidden unionfs_macros two_branches cleanup_fs ''/dir'' 1 =
     Inr (0, cleanup_fs\<lparr>entries := [''/ro/.unionfs/dir_HIDDEN~'' \<mapsto> new_dir]\<rparr>)
   \<and> remove_hidden unionfs_macros two_branches empty_fs ''/dir'' 1 = Inr (0, empty_fs)"
proof -
  have fit: "\<forall>k. 0 \<le> k \<and> k \<le> 1 \<longrightarrow> marker_fits unionfs_macros two_branches ''/dir'' k"
    using two_branches_fit by blast
  have up: "[0..1::int] = [0, 1]" by (simp add: upto_rec1)
  have mp: "map (\<lambda>k. marker_path unionfs_macros (branches two_branches ! nat k) ''/dir'') [0, 1]
      = [''/rw/.unionfs/dir_HIDDEN~'', ''/ro/.unionfs/dir_HIDDEN~'']"
    by (simp only: list.map two_branches_nth marker_path_dir)
  have cow: "cow_enabled two_branches" by (simp add: two_branches_def)
  have r: "remove_hidden unionfs_macros two_branches fs ''/dir'' 1 =
      Inr (0, foldl remove_marker fs [''/rw/.unionfs/dir_HIDDEN~'', ''/ro/.unionfs/dir_HIDDEN~''])"
    for fs
    using remove_hidden_best_effort [of unionfs_macros two_branches fs "''/dir''" 1] fit cow
    by (simp only: up mp) simp
  have a: "foldl remove_marker cleanup_fs [''/rw/.unionfs/dir_HIDDEN~'', ''/ro/.unionfs/dir_HIDDEN~'']
      = cleanup_fs\<lparr>entries := [''/ro/.unionfs/dir_HIDDEN~'' \<mapsto> new_dir]\<rparr>"
    by (simp add: remove_marker_def unlink_def rmdir_def cleanup_fs_def regular_file_def
        new_dir_def fun_eq_iff)
  have b: "foldl remove_marker empty_fs [''/rw/.unionfs/dir_HIDDEN~'', ''/ro/.unionfs/dir_HIDDEN~'']
      = empty_fs"
    by (simp add: remove_marker_def empty_fs_def)
  from r [of cleanup_fs] r [of empty_fs] a b show ?thesis by (simp only:) 
qed

text \<open>
  C5. For every union path and branch range, the request for all branches included,
  \<open>remove_hidden\<close> should report success or \<open>-ENAMETOOLONG\<close> and nothing else, having removed
  the markers of the branches in range. The code does not for two inputs. Asked for all
  branches (\<open>maxbranch = -1\<close>) of the registry of two, with markers of \<open>/dir\<close> in both, it
  treats the branches 0 and 1 and then reads \<open>uopt.branches[2]\<close>, outside the registry,
  instead of returning 0: the loop runs while \<open>i <= maxbranch\<close> with \<open>maxbranch\<close> set to
  \<open>nbranches\<close>. For a union path of 1004 bytes, whose marker path has exactly 1024 bytes,
  it passes its own length check (\<open>>\<close> where the terminator needs \<open>>=\<close>) and stores 1025
  bytes into its array of 1024, instead of returning \<open>-ENAMETOOLONG\<close>.
\<close>

theorem remove_hidden_faults_instead_of_success:
  "remove_hidden unionfs_macros two_branches cleanup_fs ''/dir'' (- 1) = Inl (BranchIndex 2)
   \<and> remove_hidden unionfs_macros two_branches cleanup_fs
        (CHR ''/'' # replicate 1003 CHR ''b'') 1 = Inl (BufferOverrun 1025)"
proof -
  have cow: "cow_enabled two_branches" by (simp add: two_branches_def)
  have nb: "nbranches two_branches = 2" by (rule two_branches_nth)
  have fit: "\<forall>k. 0 \<le> k \<and> k < nbranches two_branches \<longrightarrow>
      marker_fits unionfs_macros two_branches ''/dir'' k"
    using two_branches_fit by (simp add: nb)
  have a: "remove_hidden unionfs_macros two_branches cleanup_fs ''/dir'' (- 1)
      = Inl (BranchIndex 2)"
    using remove_hidden_all_out_of_range [OF cow fit, of cleanup_fs] by (simp only: nb)
  have b0: "branches two_branches ! 0 = \<lparr>path = ''/rw/'', path_len = 4\<rparr>"
    by (simp add: two_branches_def)
  have b: "remove_hidden unionfs_macros two_branches cleanup_fs
        (CHR ''/'' # replicate 1003 CHR ''b'') 1 = Inl (BufferOverrun 1025)"
    by (subst remove_hidden_boundary_overrun)
       (simp_all add: b0 layout_rw NUL_def base_rw_slash nb,
        simp_all add: unionfs_macros_def two_branches_def)
  from a b show ?thesis by simp
qed

subsection \<open>do_create_whiteout\<close>

lemma mkdir_settled_self: "settled (snd (mkdir fs d)) d"
  by (simp add: mkdir_def settled_def split: option.splits)

lemma mkdir_settled_keep: "settled fs e \<Longrightarrow> settled (snd (mkdir fs d)) e"
  by (auto simp: mkdir_def settled_def split: option.splits)

lemma mkdir_settled_id: "settled fs d \<Longrightarrow> snd (mkdir fs d) = fs"
  by (auto simp: mkdir_def settled_def split: option.splits)

lemma open_creat_settled_keep: "settled fs e \<Longrightarrow> settled (snd (open_creat fs d)) e"
  by (auto simp: open_creat_def settled_def split: option.splits)

lemma make_dirs_keep: "settled fs e \<Longrightarrow> settled (make_dirs fs ds) e"
  unfolding make_dirs_def
  by (induction ds arbitrary: fs) (simp_all add: mkdir_settled_keep)

lemma make_dirs_settled: "d \<in> set ds \<Longrightarrow> settled (make_dirs fs ds) d"
proof (induction ds arbitrary: fs)
  case Nil
  then show ?case by simp
next
  case (Cons x xs)
  show ?case
  proof (cases "d = x")
    case True
    have "settled (make_dirs (snd (mkdir fs x)) xs) x"
      by (rule make_dirs_keep) (rule mkdir_settled_self)
    with True show ?thesis by (simp add: make_dirs_def)
  next
    case False
    with Cons.prems have "d \<in> set xs" by simp
    from Cons.IH [OF this] show ?thesis by (simp add: make_dirs_def)
  qed
qed

lemma make_dirs_id: "\<forall>d\<in>set ds. settled fs d \<Longrightarrow> make_dirs fs ds = fs"
  unfolding make_dirs_def
  by (induction ds arbitrary: fs) (simp_all add: mkdir_settled_id)

lemma path_create_cutlast_make_dirs:
  "path_create_cutlast K uopt fs p ro rw =
     make_dirs fs (case u_dirname p of None \<Rightarrow> []
        | Some dname \<Rightarrow> map (\<lambda>d. path (branches uopt ! rw) @ d) (dir_prefixes dname))"
  by (simp add: path_create_cutlast_def make_dirs_def foldl_map split: option.splits)

lemma path_create_cutlast_again:
  assumes "\<And>e. settled (path_create_cutlast K uopt fs p ro rw) e \<Longrightarrow> settled fs2 e"
  shows "path_create_cutlast K uopt fs2 p ro rw = fs2"
proof -
  define ds where "ds = (case u_dirname p of None \<Rightarrow> []
        | Some dname \<Rightarrow> map (\<lambda>d. path (branches uopt ! rw) @ d) (dir_prefixes dname))"
  have a: "path_create_cutlast K uopt f p ro rw = make_dirs f ds" for f
    by (simp add: path_create_cutlast_make_dirs ds_def)
  have "\<forall>d\<in>set ds. settled fs2 d"
    using assms make_dirs_settled [of _ ds fs] by (auto simp: a)
  then show ?thesis by (simp add: a make_dirs_id)
qed

lemma open_creat_again:
  assumes "open_creat fs p = (res, fs2)" "res \<noteq> - 1"
  shows "open_creat fs2 p = (res, fs2)"
  using assms by (auto simp: open_creat_def split: option.splits if_splits)

lemma mkdir_again:
  assumes "mkdir fs p = (0, fs2)"
  shows "mkdir fs2 p = (- 1, fs2)"
  using assms by (auto simp: mkdir_def split: option.splits if_splits)

lemma do_create_whiteout_twice:
  assumes first: "do_create_whiteout K uopt fs upath branch_rw mode = Inr (0, fs1)"
  shows "do_create_whiteout K uopt fs1 upath branch_rw mode =
           Inr (if mode = WHITEOUT_FILE then 0 else - 1, fs1)"
proof -
  from first obtain metapath where
    m: "BUILD_PATH K [METADIR K, upath] = Inr (0, metapath)"
    by (auto simp: do_create_whiteout_def split: sum.splits prod.splits if_splits)
  from first m have idx: "0 \<le> branch_rw \<and> branch_rw < nbranches uopt"
    by (auto simp: do_create_whiteout_def split: if_splits)
  define fsa where "fsa = path_create_cutlast K uopt fs metapath (nat branch_rw) (nat branch_rw)"
  from first m idx obtain p where
    p: "BUILD_PATH K [path (branches uopt ! nat branch_rw), metapath] = Inr (0, p)"
    by (auto simp: do_create_whiteout_def Let_def split: sum.splits prod.splits if_splits)
  from first m idx p obtain p' where p': "strcat K p (HIDETAG K) = Inr p'"
    by (auto simp: do_create_whiteout_def Let_def split: sum.splits prod.splits if_splits)
  have step_file: "(if res = - 1 then Inr (- 1, fs2) else Inr (close fs2 res)) = Inr (0, fs1)"
    if "mode = WHITEOUT_FILE" "open_creat fsa p' = (res, fs2)" for res fs2
    using first that
    by (simp add: do_create_whiteout_def m idx p p' fsa_def [symmetric] split: if_splits)
  have step_dir: "mkdir fsa p' = (0, fs1)" if "mode \<noteq> WHITEOUT_FILE"
    using first that by (simp add: do_create_whiteout_def m idx p p' fsa_def [symmetric])
  have keep: "settled fs1 e" if "settled fsa e" for e
  proof (cases "mode = WHITEOUT_FILE")
    case True
    obtain res fs2 where o: "open_creat fsa p' = (res, fs2)" by (cases "open_creat fsa p'")
    from step_file [OF True o] have "fs2 = fs1"
      by (auto simp: close_def split: if_splits)
    with o open_creat_settled_keep [OF that, of p'] show ?thesis by simp
  next
    case False
    from step_dir [OF False] mkdir_settled_keep [OF that, of p'] show ?thesis by simp
  qed
  have again: "path_create_cutlast K uopt fs1 metapath (nat branch_rw) (nat branch_rw) = fs1"
    by (rule path_create_cutlast_again) (rule keep, simp add: fsa_def)
  show ?thesis
  proof (cases "mode = WHITEOUT_FILE")
    case True
    obtain res fs2 where o: "open_creat fsa p' = (res, fs2)" by (cases "open_creat fsa p'")
    from step_file [OF True o] have r: "res \<noteq> - 1" "fs2 = fs1"
      by (auto simp: close_def split: if_splits)
    from open_creat_again [OF o r(1)] r True show ?thesis
      using m idx p p' by (simp add: do_create_whiteout_def again close_def)
  next
    case False
    from mkdir_again [OF step_dir [OF False]] False show ?thesis
      using m idx p p' by (simp add: do_create_whiteout_def again)
  qed
qed

lemmas eval_do_create_whiteout =
  do_create_whiteout_def BUILD_PATH_def build_path_def build_path_loop.simps store_def
  first_char_def c_str_def unionfs_macros_def two_branches_def SLASH_def NUL_def nbranches_def
  strcat_def path_create_cutlast_def u_dirname_def dir_prefixes_def upt_rec nth_Cons'
  mkdir_def open_creat_def close_def empty_fs_def

text \<open>
  C3, as stated, does not hold for the directory kind: the first call makes the marker
  directory and returns 0, the second call finds it, \<open>mkdir\<close> fails with EEXIST, and the
  call returns -1.
\<close>

theorem do_create_whiteout_dir_twice_counterexample:
  "do_create_whiteout unionfs_macros two_branches empty_fs ''/dir'' 0 WHITEOUT_DIR
     = Inr (0, dir_marker_fs)
   \<and> do_create_whiteout unionfs_macros two_branches dir_marker_fs ''/dir'' 0 WHITEOUT_DIR
     = Inr (- 1, dir_marker_fs)"
  by (simp add: eval_do_create_whiteout dir_marker_fs_def new_dir_def)

text \<open>
  C3, amended. After a call of \<open>do_create_whiteout\<close> that returned 0, a second call for the
  same path, branch and kind leaves the file system as the first call left it; it returns
  0 for the file kind and -1 for the directory kind.
\<close>

theorem do_create_whiteout_second_call:
  "do_create_whiteout K uopt fs upath branch_rw mode = Inr (0, fs1) \<Longrightarrow>
     do_create_whiteout K uopt fs1 upath branch_rw mode =
       Inr (if mode = WHITEOUT_FILE then 0 else - 1, fs1)"
  by (rule do_create_whiteout_twice)

theorem do_create_whiteout_second_call_witness:
  "do_create_whiteout unionfs_macros two_branches empty_fs ''/note.txt'' 0 WHITEOUT_FILE
     = Inr (0, note_hidden_fs)
   \<and> do_create_whiteout unionfs_macros two_branches note_hidden_fs ''/note.txt'' 0 WHITEOUT_FILE
     = Inr (0, note_hidden_fs)"
proof -
  have first: "do_create_whiteout unionfs_macros two_branches empty_fs ''/note.txt'' 0
      WHITEOUT_FILE = Inr (0, note_hidden_fs)"
    by (simp add: eval_do_create_whiteout note_hidden_fs_def new_dir_def regular_file_def)
  from do_create_whiteout_second_call [OF first] first show ?thesis by simp
qed

subsection \<open>set_owner\<close>

lemma set_owner_cases:
  "set_owner fs ctx p =
     (if uid ctx = 0 \<or> gid ctx = 0 then (0, fs)
      else case entries fs p of
             None \<Rightarrow> (- ENOENT, fs)
           | Some st \<Rightarrow>
               if refuses fs p then (- EPERM, fs)
               else (0, fs\<lparr>entries := (entries fs)(p \<mapsto> st\<lparr>st_uid := uid ctx, st_gid := gid ctx\<rparr>)\<rparr>))"
  by (simp add: set_owner_def lchown_def split: option.splits)

text \<open>
  C9, as stated, does not hold: for a user who is not the superuser but whose group is
  0, \<open>set_owner\<close> leaves the owner of the entry as it is and returns 0.
\<close>

theorem set_owner_group_zero_counterexample:
  "uid \<lparr>uid = 1000, gid = 0\<rparr> \<noteq> 0
   \<and> set_owner marker_fs \<lparr>uid = 1000, gid = 0\<rparr> ''/rw/.unionfs/note.txt_HIDDEN~'' = (0, marker_fs)
   \<and> map_option st_uid (entries marker_fs ''/rw/.unionfs/note.txt_HIDDEN~'') = Some 0"
  by (simp add: set_owner_def marker_fs_def)

text \<open>
  C9, amended. \<open>set_owner\<close> changes the owner and the group of the entry to those of the
  request exactly when both the user and the group of the request are not 0. It returns 0
  when the user or the group is 0, without touching the file system, and when the change
  was made; when the change fails it returns the negated error number and changes
  nothing.
\<close>

theorem set_owner_applies:
  "(uid ctx = 0 \<or> gid ctx = 0 \<longrightarrow> set_owner fs ctx p = (0, fs))
   \<and> (uid ctx \<noteq> 0 \<and> gid ctx \<noteq> 0 \<and> entries fs p = Some st \<and> \<not> refuses fs p \<longrightarrow>
        set_owner fs ctx p =
          (0, fs\<lparr>entries := (entries fs)(p \<mapsto> st\<lparr>st_uid := uid ctx, st_gid := gid ctx\<rparr>)\<rparr>))
   \<and> (uid ctx \<noteq> 0 \<and> gid ctx \<noteq> 0 \<and> (entries fs p = None \<or> refuses fs p) \<longrightarrow>
        fst (set_owner fs ctx p) < 0 \<and> snd (set_owner fs ctx p) = fs)"
  by (auto simp: set_owner_cases ENOENT_def EPERM_def split: option.splits)

theorem set_owner_applies_witness:
  "set_owner marker_fs \<lparr>uid = 0, gid = 0\<rparr> ''/rw/.unionfs/note.txt_HIDDEN~'' = (0, marker_fs)
   \<and> fst (set_owner marker_fs \<lparr>uid = 1000, gid = 100\<rparr> ''/rw/.unionfs/note.txt_HIDDEN~'') = 0
   \<and> map_option st_uid (entries (snd (set_owner marker_fs \<lparr>uid = 1000, gid = 100\<rparr>
         ''/rw/.unionfs/note.txt_HIDDEN~'')) ''/rw/.unionfs/note.txt_HIDDEN~'') = Some 1000
   \<and> fst (set_owner marker_fs \<lparr>uid = 1000, gid = 100\<rparr> ''/missing'') < 0"
  using set_owner_applies [of "\<lparr>uid = 0, gid = 0\<rparr>" marker_fs "''/rw/.unionfs/note.txt_HIDDEN~''"]
    set_owner_applies [of "\<lparr>uid = 1000, gid = 100\<rparr>" marker_fs "''/rw/.unionfs/note.txt_HIDDEN~''"
       "\<lparr>st_mode = S_IFREG, st_uid = 0, st_gid = 0\<rparr>"]
    set_owner_applies [of "\<lparr>uid = 1000, gid = 100\<rparr>" marker_fs "''/missing''"]
  by (simp add: marker_fs_def)

subsection \<open>path_hidden\<close>

lemma set_component_ends: "set (component_ends p) = {n. component_end p n}"
  by (auto simp: component_ends_def component_end_def Suc_le_eq)

lemma skip_name_le: "walk \<le> length w \<Longrightarrow> skip_name w walk \<le> length w"
  by (induction w walk rule: skip_name.induct) (subst skip_name.simps, auto)

lemma skip_slashes_le: "walk \<le> length w \<Longrightarrow> skip_slashes w walk \<le> length w"
  by (induction w walk rule: skip_slashes.induct) (subst skip_slashes.simps, auto)

lemma skip_name_between:
  "walk \<le> j \<Longrightarrow> j < skip_name w walk \<Longrightarrow> w ! j \<noteq> SLASH"
proof (induction w walk rule: skip_name.induct)
  case (1 w walk)
  show ?case
  proof (cases "walk < length w \<and> w ! walk \<noteq> SLASH")
    case True
    then have eq: "skip_name w walk = skip_name w (walk + 1)"
      by (subst skip_name.simps) simp
    show ?thesis
    proof (cases "j = walk")
      case True
      with \<open>walk < length w \<and> w ! walk \<noteq> SLASH\<close> show ?thesis by simp
    next
      case False
      with "1.prems" have "walk + 1 \<le> j" by simp
      from "1.IH" [OF True this] "1.prems"(2) eq show ?thesis by simp
    qed
  next
    case False
    then have "skip_name w walk = walk" by (subst skip_name.simps) auto
    with "1.prems" show ?thesis by simp
  qed
qed

lemma skip_slashes_between:
  "walk \<le> j \<Longrightarrow> j < skip_slashes w walk \<Longrightarrow> w ! j = SLASH"
proof (induction w walk rule: skip_slashes.induct)
  case (1 w walk)
  show ?case
  proof (cases "walk < length w \<and> w ! walk = SLASH")
    case True
    then have eq: "skip_slashes w walk = skip_slashes w (walk + 1)"
      by (subst skip_slashes.simps) simp
    show ?thesis
    proof (cases "j = walk")
      case True
      with \<open>walk < length w \<and> w ! walk = SLASH\<close> show ?thesis by simp
    next
      case False
      with "1.prems" have "walk + 1 \<le> j" by simp
      from "1.IH" [OF True this] "1.prems"(2) eq show ?thesis by simp
    qed
  next
    case False
    then have "skip_slashes w walk = walk" by (subst skip_slashes.simps) auto
    with "1.prems" show ?thesis by simp
  qed
qed

text \<open>The first component end after a name byte is where \<open>skip_name\<close> stops.\<close>

lemma skip_name_first_end:
  assumes "walk < length w" "w ! walk \<noteq> SLASH"
  shows "component_end w (skip_name w walk)"
    and "walk < skip_name w walk"
    and "\<And>n. walk < n \<Longrightarrow> component_end w n \<Longrightarrow> skip_name w walk \<le> n"
proof -
  let ?e = "skip_name w walk"
  show lt: "walk < ?e" using assms by (rule skip_name_step)
  have le: "?e \<le> length w" using assms(1) by (simp add: skip_name_le)
  have prev: "w ! (?e - 1) \<noteq> SLASH"
    using lt by (intro skip_name_between [of walk]) auto
  have stop: "?e = length w \<or> w ! ?e = SLASH"
    using le skip_name_stop [of w walk] by (cases "?e < length w") auto
  from lt le prev stop show "component_end w ?e"
    by (simp add: component_end_def)
  fix n assume n: "walk < n" "component_end w n"
  show "?e \<le> n"
  proof (rule ccontr)
    assume "\<not> ?e \<le> n"
    then have "n < ?e" by simp
    with n(1) have "w ! n \<noteq> SLASH" by (intro skip_name_between [of walk]) auto
    moreover from \<open>n < ?e\<close> le have "n \<noteq> length w" by simp
    ultimately show False using n(2) by (simp add: component_end_def)
  qed
qed

lemma no_end_in_slashes:
  assumes "e \<le> n - 1" "n - 1 < skip_slashes w e" "0 < n"
  shows "\<not> component_end w n"
  using skip_slashes_between [OF assms(1,2)] by (simp add: component_end_def)

lemma filedir_hidden_cases:
  assumes "cow_enabled uopt" "0 < n"
  shows "filedir_hidden K uopt fs w n =
     (if \<not> tag_fits K n then - ENAMETOOLONG
      else if marker_at K fs (take n w) then 1 else 0)"
  using assms
  by (auto simp: filedir_hidden_def tag_fits_def marker_at_def lstat_def Let_def
      split: option.splits)

lemma path_hidden_loop_char:
  assumes cow: "cow_enabled uopt"
  shows "walk < length w \<Longrightarrow> w ! walk \<noteq> SLASH \<Longrightarrow>
     path_hidden_loop K uopt fs w walk =
       (if \<exists>n. walk < n \<and> component_end w n \<and> tag_fits K n \<and> marker_at K fs (take n w) then 1
        else if \<exists>n. walk < n \<and> component_end w n \<and> \<not> tag_fits K n then - ENAMETOOLONG
        else 0)"
proof (induction "length w - walk" arbitrary: walk rule: less_induct)
  case less
  let ?e = "skip_name w walk"
  let ?s = "skip_slashes w ?e"
  note fe = skip_name_first_end [OF less.prems]
  have e0: "0 < ?e" using fe(2) by simp
  have ele: "?e \<le> length w" using fe(1) by (simp add: component_end_def)
  have mono: "tag_fits K m" if "tag_fits K n" "m \<le> n" for m n
    using that by (simp add: tag_fits_def)
  have unfold: "path_hidden_loop K uopt fs w walk =
     (let res = filedir_hidden K uopt fs w ?e
      in if res \<noteq> 0 then res
         else if ?s < length w then path_hidden_loop K uopt fs w ?s else 0)"
    by (subst path_hidden_loop.simps) (simp add: Let_def)
  show ?case
  proof (cases "tag_fits K ?e")
    case False
    have "\<not> tag_fits K n" if "walk < n" "component_end w n" for n
      using mono [of n ?e] False fe(3) [OF that] by blast
    with False fe(1,2) show ?thesis
      by (auto simp: unfold filedir_hidden_cases [OF cow e0] ENAMETOOLONG_def)
  next
    case fit: True
    show ?thesis
    proof (cases "marker_at K fs (take ?e w)")
      case True
      with fit fe(1,2) show ?thesis
        by (auto simp: unfold filedir_hidden_cases [OF cow e0])
    next
      case nomark: False
      have sle: "?s \<le> length w" using ele by (rule skip_slashes_le)
      have es: "?e \<le> ?s" by (rule skip_slashes_ge)
      have later: "n = ?e \<or> ?s < n" if "walk < n" "component_end w n" for n
      proof (rule ccontr)
        assume a: "\<not> (n = ?e \<or> ?s < n)"
        with fe(3) [OF that] have "?e < n" "n \<le> ?s" by auto
        then have "\<not> component_end w n"
          by (intro no_end_in_slashes [of ?e]) auto
        with that show False by simp
      qed
      show ?thesis
      proof (cases "?s < length w")
        case True
        have ns: "w ! ?s \<noteq> SLASH" using True by (rule skip_slashes_stop)
        have "length w - ?s < length w - walk" using True fe(2) es by linarith
        from less.hyps [OF this True ns]
        have IH: "path_hidden_loop K uopt fs w ?s =
          (if \<exists>n. ?s < n \<and> component_end w n \<and> tag_fits K n \<and> marker_at K fs (take n w) then 1
           else if \<exists>n. ?s < n \<and> component_end w n \<and> \<not> tag_fits K n then - ENAMETOOLONG
           else 0)" .
        have ws: "walk < n" if "?s < n" for n using that fe(2) es by linarith
        have A: "(\<exists>n. walk < n \<and> component_end w n \<and> tag_fits K n \<and> marker_at K fs (take n w))
            \<longleftrightarrow> (\<exists>n. ?s < n \<and> component_end w n \<and> tag_fits K n \<and> marker_at K fs (take n w))"
          using later nomark ws by blast
        have B: "(\<exists>n. walk < n \<and> component_end w n \<and> \<not> tag_fits K n)
            \<longleftrightarrow> (\<exists>n. ?s < n \<and> component_end w n \<and> \<not> tag_fits K n)"
          using later fit ws by blast
        show ?thesis
          using True fit nomark
          by (simp only: unfold filedir_hidden_cases [OF cow e0] IH A B Let_def) simp
      next
        case False
        with sle have "?s = length w" by simp
        have none: "n = ?e" if "walk < n" "component_end w n" for n
          using later [OF that] that(2) \<open>?s = length w\<close> by (auto simp: component_end_def)
        have A: "\<not> (\<exists>n. walk < n \<and> component_end w n \<and> tag_fits K n \<and> marker_at K fs (take n w))"
          using none nomark by blast
        have B: "\<not> (\<exists>n. walk < n \<and> component_end w n \<and> \<not> tag_fits K n)"
          using none fit by blast
        show ?thesis
          using False fit nomark
          by (simp only: unfold filedir_hidden_cases [OF cow e0] A B Let_def) simp
      qed
    qed
  qed
qed

lemma component_end_append:
  assumes "0 < m"
  shows "component_end (base @ p) (length base + m) \<longleftrightarrow> component_end p m"
proof -
  from assms have "length base + m - 1 = length base + (m - 1)" by simp
  then have "(base @ p) ! (length base + m - 1) = p ! (m - 1)"
    by (simp only: nth_append_length_plus)
  moreover have "(base @ p) ! (length base + m) = p ! m"
    by (rule nth_append_length_plus)
  ultimately show ?thesis
    using assms by (simp add: component_end_def)
qed

lemma skip_slashes_start:
  assumes lay: "branch_layout K b"
  shows "skip_slashes (whiteout_base K b upath @ upath) (path_len b + length (METADIR K) - 1)
           = skip_slashes (whiteout_base K b upath @ upath) (length (whiteout_base K b upath))"
proof (cases "first_char upath = SLASH")
  case True
  then have "length (whiteout_base K b upath) = length (path b) + (length (METADIR K) - 1)"
    by (simp add: whiteout_base_def meta_base_def)
  moreover from lay have "path_len b = length (path b)" by (simp add: branch_layout_def)
  moreover note length_metadir_pos [OF lay]
  ultimately have "path_len b + length (METADIR K) - 1 = length (whiteout_base K b upath)"
    by linarith
  then show ?thesis by (simp only:)
next
  case False
  let ?w = "whiteout_base K b upath @ upath"
  from False lay have base: "whiteout_base K b upath = path b @ METADIR K"
    and len: "length (whiteout_base K b upath) = path_len b + length (METADIR K)"
    by (simp_all add: whiteout_base_def meta_base_def branch_layout_def)
  from lay have md: "METADIR K \<noteq> []" "last (METADIR K) = SLASH"
    by (simp_all add: branch_layout_def)
  have idx: "path_len b + length (METADIR K) - 1 < length ?w"
    using len md(1) by (cases "METADIR K") simp_all
  have "?w ! (path_len b + length (METADIR K) - 1) = last (path b @ METADIR K)"
    using md(1) len base by (simp add: nth_append last_conv_nth)
  with md have sl: "?w ! (path_len b + length (METADIR K) - 1) = SLASH" by simp
  have "path_len b + length (METADIR K) - 1 + 1 = length (whiteout_base K b upath)"
    using len md(1) by (cases "METADIR K") simp_all
  with idx sl show ?thesis
    by (subst skip_slashes.simps) simp
qed

lemma component_end_take_prefix:
  "component_end p n \<Longrightarrow> take n p \<in> set (path_prefixes p)"
  using set_component_ends [of p] by (auto simp: path_prefixes_def)

lemma path_prefixes_cases:
  "(\<exists>q\<in>set (path_prefixes p). Q q) \<longleftrightarrow>
     (if \<exists>m. component_end p m then \<exists>m. component_end p m \<and> Q (take m p) else Q p)"
proof (cases "component_ends p = []")
  case True
  then have "\<not> (\<exists>m. component_end p m)"
    using set_component_ends [of p] by auto
  with True show ?thesis by (simp add: path_prefixes_def)
next
  case False
  then have "\<exists>m. component_end p m"
    using set_component_ends [of p] by (cases "component_ends p") auto
  with False show ?thesis
    using set_component_ends [of p] by (auto simp: path_prefixes_def)
qed

lemma path_hidden_loop_prefixes:
  assumes cow: "cow_enabled uopt" and base: "base \<noteq> []"
  shows "path_hidden_loop K uopt fs (base @ upath) (skip_slashes (base @ upath) (length base)) =
     (if \<exists>q\<in>set (path_prefixes upath).
           tag_fits K (length (base @ q)) \<and> marker_at K fs (base @ q) then 1
      else if \<exists>q\<in>set (path_prefixes upath). \<not> tag_fits K (length (base @ q))
      then - ENAMETOOLONG
      else 0)"
proof -
  let ?w = "base @ upath"
  let ?s = "skip_slashes ?w (length base)"
  have bs: "length base \<le> ?s" by (rule skip_slashes_ge)
  have sle: "?s \<le> length ?w" by (rule skip_slashes_le) simp
  have slashes: "upath ! i = SLASH" if "length base + i < ?s" for i
    using skip_slashes_between [of "length base" "length base + i" ?w] that
    by (simp add: nth_append)
  show ?thesis
  proof (cases "?s < length ?w")
    case True
    have ns: "?w ! ?s \<noteq> SLASH" using True by (rule skip_slashes_stop)
    have corr: "(\<exists>n. ?s < n \<and> component_end ?w n \<and> Q n (take n ?w)) \<longleftrightarrow>
        (\<exists>m. component_end upath m \<and> Q (length base + m) (base @ take m upath))" for Q
    proof
      assume "\<exists>n. ?s < n \<and> component_end ?w n \<and> Q n (take n ?w)"
      then obtain n where n: "?s < n" "component_end ?w n" "Q n (take n ?w)" by blast
      define m where "m = n - length base"
      from n(1) bs have m: "0 < m" "n = length base + m" by (simp_all add: m_def)
      from n(2) m have "component_end upath m" by (simp add: component_end_append)
      moreover from n(3) m have "Q (length base + m) (base @ take m upath)" by simp
      ultimately show "\<exists>m. component_end upath m \<and> Q (length base + m) (base @ take m upath)"
        by blast
    next
      assume "\<exists>m. component_end upath m \<and> Q (length base + m) (base @ take m upath)"
      then obtain m where m: "component_end upath m" "Q (length base + m) (base @ take m upath)"
        by blast
      from m(1) have m0: "0 < m" and nsl: "upath ! (m - 1) \<noteq> SLASH"
        by (simp_all add: component_end_def)
      have "\<not> length base + (m - 1) < ?s" using slashes [of "m - 1"] nsl by blast
      with m0 have "?s < length base + m" by simp
      moreover from m(1) m0 have "component_end ?w (length base + m)"
        by (simp add: component_end_append)
      moreover from m(2) have "Q (length base + m) (take (length base + m) ?w)" by simp
      ultimately show "\<exists>n. ?s < n \<and> component_end ?w n \<and> Q n (take n ?w)" by blast
    qed
    have ex: "\<exists>m. component_end upath m"
    proof -
      from skip_name_first_end(1,2) [OF True ns]
      have "\<exists>n. ?s < n \<and> component_end ?w n \<and> True" by blast
      then show ?thesis using corr [of "\<lambda>n q. True"] by simp
    qed
    have len: "length (base @ take m upath) = length base + m" if "component_end upath m" for m
      using that by (simp add: component_end_def)
    have A: "(\<exists>n. ?s < n \<and> component_end ?w n \<and> tag_fits K n \<and> marker_at K fs (take n ?w)) \<longleftrightarrow>
        (\<exists>q\<in>set (path_prefixes upath). tag_fits K (length (base @ q)) \<and> marker_at K fs (base @ q))"
      unfolding path_prefixes_cases
      using corr [of "\<lambda>n q. tag_fits K n \<and> marker_at K fs q"] ex len by auto
    have B: "(\<exists>n. ?s < n \<and> component_end ?w n \<and> \<not> tag_fits K n) \<longleftrightarrow>
        (\<exists>q\<in>set (path_prefixes upath). \<not> tag_fits K (length (base @ q)))"
      unfolding path_prefixes_cases
      using corr [of "\<lambda>n q. \<not> tag_fits K n"] ex len by auto
    show ?thesis
      unfolding path_hidden_loop_char [OF cow True ns] A B ..
  next
    case False
    with sle have eq: "?s = length ?w" by simp
    have none: "\<not> (\<exists>m. component_end upath m)"
    proof
      assume "\<exists>m. component_end upath m"
      then obtain m where m: "component_end upath m" ..
      then have "0 < m" "m \<le> length upath" "upath ! (m - 1) \<noteq> SLASH"
        by (simp_all add: component_end_def)
      moreover have "upath ! (m - 1) = SLASH"
        using slashes [of "m - 1"] eq \<open>0 < m\<close> \<open>m \<le> length upath\<close> by simp
      ultimately show False by simp
    qed
    have last_only: "path_hidden_loop K uopt fs w (length w) =
        (if \<not> tag_fits K (length w) then - ENAMETOOLONG
         else if marker_at K fs w then 1 else 0)" if w0: "0 < length w" for w
    proof -
      have sn: "skip_name w (length w) = length w"
        by (subst skip_name.simps) simp
      have ss: "skip_slashes w (length w) = length w"
        by (subst skip_slashes.simps) simp
      show ?thesis
        by (subst path_hidden_loop.simps)
           (simp add: sn ss filedir_hidden_cases [OF cow w0] Let_def ENAMETOOLONG_def)
    qed
    have "0 < length ?w" using base by simp
    from last_only [OF this] have "path_hidden_loop K uopt fs ?w ?s =
        (if \<not> tag_fits K (length ?w) then - ENAMETOOLONG
         else if marker_at K fs ?w then 1 else 0)"
      by (simp only: eq)
    moreover have "(\<exists>q\<in>set (path_prefixes upath). Q q) \<longleftrightarrow> Q upath" for Q
      unfolding path_prefixes_cases using none by auto
    ultimately show ?thesis by auto
  qed
qed

lemma path_hidden_layout:
  assumes cow: "cow_enabled uopt" and idx: "0 \<le> branch" "branch < nbranches uopt"
    and lay: "branch_layout K (branches uopt ! nat branch)" and nul: "NUL \<notin> set upath"
    and fits: "length (whiteout_base K (branches uopt ! nat branch) upath) + length upath + 1
                 \<le> PATHLEN_MAX K"
  shows "path_hidden K uopt fs upath branch =
     Inr (if \<exists>q\<in>set (path_prefixes upath).
               tag_fits K (length (whiteout_base K (branches uopt ! nat branch) upath @ q)) \<and>
               marker_at K fs (whiteout_base K (branches uopt ! nat branch) upath @ q) then 1
          else if \<exists>q\<in>set (path_prefixes upath).
               \<not> tag_fits K (length (whiteout_base K (branches uopt ! nat branch) upath @ q))
          then - ENAMETOOLONG
          else 0)"
proof -
  let ?b = "branches uopt ! nat branch"
  let ?base = "whiteout_base K ?b upath"
  have base: "?base \<noteq> []" using lay by (rule whiteout_base_nonempty)
  have guard: "\<not> (path_len ?b + length (METADIR K) = 0 \<or>
      path_len ?b + length (METADIR K) - 1 > length (?base @ upath))"
    using length_whiteout_base_start [OF lay, of upath] length_metadir_pos [OF lay] by simp
  have "path_hidden K uopt fs upath branch =
      Inr (path_hidden_loop K uopt fs (?base @ upath)
             (skip_slashes (?base @ upath) (path_len ?b + length (METADIR K) - 1)))"
    using cow idx guard
    by (simp add: path_hidden_def BUILD_PATH_whiteout_fits [OF lay nul fits] Let_def)
  also have "\<dots> = Inr (path_hidden_loop K uopt fs (?base @ upath)
             (skip_slashes (?base @ upath) (length ?base)))"
    by (simp only: skip_slashes_start [OF lay])
  finally show ?thesis
    by (simp only: path_hidden_loop_prefixes [OF cow base])
qed

lemma path_hidden_build_fails:
  assumes cow: "cow_enabled uopt" and idx: "0 \<le> branch" "branch < nbranches uopt"
    and lay: "branch_layout K (branches uopt ! nat branch)"
    and pos: "0 < PATHLEN_MAX K"
    and long: "\<not> length (whiteout_base K (branches uopt ! nat branch) upath) + length upath + 1
                 \<le> PATHLEN_MAX K"
  shows "path_hidden K uopt fs upath branch = Inr 0"
proof -
  from BUILD_PATH_whiteout_toolong [OF lay long pos]
  obtain w where "BUILD_PATH K [path (branches uopt ! nat branch), METADIR K, upath]
      = Inr (- ENAMETOOLONG, w)" ..
  with cow idx show ?thesis
    by (simp add: path_hidden_def ENAMETOOLONG_def)
qed



lemma whole_path_prefix:
  "p \<noteq> [] \<Longrightarrow> last p \<noteq> SLASH \<Longrightarrow> p \<in> set (path_prefixes p)"
  using component_end_take_prefix [of p "length p"]
  by (simp add: component_end_def last_conv_nth)


lemma path_hidden_first_marker:
  assumes cow: "cow_enabled uopt" and idx: "0 \<le> branch" "branch < nbranches uopt"
    and lay: "branch_layout K (branches uopt ! nat branch)" and nul: "NUL \<notin> set upath"
    and build: "length (whiteout_base K (branches uopt ! nat branch) upath) + length upath + 1
                  \<le> PATHLEN_MAX K"
    and e: "component_end upath n"
    and fit: "length (whiteout_base K (branches uopt ! nat branch) upath) + n
                + length (HIDETAG K) < PATHLEN_MAX K"
    and mark: "entries fs (whiteout_base K (branches uopt ! nat branch) upath @ take n upath
                 @ HIDETAG K) \<noteq> None"
  shows "path_hidden K uopt fs upath branch = Inr 1"
proof -
  let ?base = "whiteout_base K (branches uopt ! nat branch) upath"
  from e have "n \<le> length upath" by (simp add: component_end_def)
  then have "length (?base @ take n upath) = length ?base + n" by simp
  with fit have "tag_fits K (length (?base @ take n upath))" by (simp only: tag_fits_def)
  moreover from mark have "marker_at K fs (?base @ take n upath)" by (simp add: marker_at_def)
  ultimately have "\<exists>q\<in>set (path_prefixes upath).
      tag_fits K (length (?base @ q)) \<and> marker_at K fs (?base @ q)"
    using component_end_take_prefix [OF e] by blast
  then show ?thesis
    unfolding path_hidden_layout [OF cow idx lay nul build] by simp
qed


lemma end_of_dir:
  "component_end (CHR ''/'' # CHR ''d'' # CHR ''i'' # CHR ''r'' # CHR ''/'' # s) 4"
  by (simp add: component_end_def SLASH_def nth_Cons')




text \<open>
  C10, as stated, does not hold for every path with a prefix whose marker name reaches
  the capacity: when a shorter prefix has a marker, \<open>path_hidden\<close> returns 1 before it
  comes to the long one.
\<close>

theorem path_hidden_hidden_before_too_long_counterexample:
  "PATHLEN_MAX unionfs_macros \<le>
     length (''/rw/.unionfs'' @ (''/dir/'' @ replicate 1006 CHR ''b'') @ HIDETAG unionfs_macros)
   \<and> path_hidden unionfs_macros two_branches dir_hidden_fs
       (''/dir/'' @ replicate 1006 CHR ''b'') 0 = Inr 1
   \<and> (1::int) \<noteq> - ENAMETOOLONG"
proof -
  have "path_hidden unionfs_macros two_branches dir_hidden_fs
       (''/dir/'' @ replicate 1006 CHR ''b'') 0 = Inr 1"
    by (rule path_hidden_first_marker [where n = 4])
       (simp_all add: two_branches_first layout_rw base_rw_slash NUL_def end_of_dir,
        simp_all add: unionfs_macros_def dir_hidden_fs_def)
  then show ?thesis
    by (simp add: unionfs_macros_def ENAMETOOLONG_def)
qed

lemma path_hidden_enabled_results:
  assumes "cow_enabled uopt" and "0 \<le> branch" and "branch < nbranches uopt"
    and "branch_layout K (branches uopt ! nat branch)" and "NUL \<notin> set upath"
    and "0 < PATHLEN_MAX K"
  shows "(PATHLEN_MAX K < length (whiteout_base K (branches uopt ! nat branch) upath @ upath) + 1
            \<longrightarrow> path_hidden K uopt fs upath branch = Inr 0)
    \<and> (length (whiteout_base K (branches uopt ! nat branch) upath @ upath) + 1 \<le> PATHLEN_MAX K
         \<longrightarrow> path_hidden K uopt fs upath branch =
           Inr (if \<exists>q\<in>set (path_prefixes upath).
                     length (whiteout_base K (branches uopt ! nat branch) upath @ q @ HIDETAG K)
                       < PATHLEN_MAX K \<and>
                     entries fs (whiteout_base K (branches uopt ! nat branch) upath @ q
                       @ HIDETAG K) \<noteq> None
                then 1
                else if \<exists>q\<in>set (path_prefixes upath).
                     PATHLEN_MAX K \<le>
                       length (whiteout_base K (branches uopt ! nat branch) upath @ q
                         @ HIDETAG K)
                then - ENAMETOOLONG
                else 0))"
proof (intro conjI impI)
  assume "PATHLEN_MAX K < length (whiteout_base K (branches uopt ! nat branch) upath @ upath) + 1"
  then have "\<not> length (whiteout_base K (branches uopt ! nat branch) upath) + length upath + 1
      \<le> PATHLEN_MAX K"
    by simp
  from path_hidden_build_fails [OF assms(1-4,6) this]
  show "path_hidden K uopt fs upath branch = Inr 0" .
next
  assume "length (whiteout_base K (branches uopt ! nat branch) upath @ upath) + 1 \<le> PATHLEN_MAX K"
  then have build: "length (whiteout_base K (branches uopt ! nat branch) upath) + length upath + 1
      \<le> PATHLEN_MAX K"
    by simp
  show "path_hidden K uopt fs upath branch =
           Inr (if \<exists>q\<in>set (path_prefixes upath).
                     length (whiteout_base K (branches uopt ! nat branch) upath @ q @ HIDETAG K)
                       < PATHLEN_MAX K \<and>
                     entries fs (whiteout_base K (branches uopt ! nat branch) upath @ q
                       @ HIDETAG K) \<noteq> None
                then 1
                else if \<exists>q\<in>set (path_prefixes upath).
                     PATHLEN_MAX K \<le>
                       length (whiteout_base K (branches uopt ! nat branch) upath @ q
                         @ HIDETAG K)
                then - ENAMETOOLONG
                else 0)"
  proof -
    have ntf: "(\<not> tag_fits K (length (b @ q))) = (PATHLEN_MAX K \<le> length (b @ q @ HIDETAG K))"
      for b q
      by (simp add: tag_fits_def not_less add.assoc)
    have tf: "tag_fits K (length (b @ q)) = (length (b @ q @ HIDETAG K) < PATHLEN_MAX K)"
      for b q
      by (simp add: tag_fits_def add.assoc)
    have ma: "marker_at K fs (b @ q) = (entries fs (b @ q @ HIDETAG K) \<noteq> None)" for b q
      by (simp add: marker_at_def)
    show ?thesis
      unfolding path_hidden_layout [OF assms(1-5) build] ntf
      unfolding tf ma ..
  qed
qed

text \<open>
  C10, amended. With copy-on-write off, \<open>path_hidden\<close> returns 0 for every path. With
  copy-on-write on, for a branch of the registry whose root is stored with a trailing
  slash and its length, strings without NUL bytes and a buffer that is not empty: when the
  marker path of the whole union path cannot be built, \<open>path_hidden\<close> returns 0; when it
  can, \<open>path_hidden\<close> returns 1 if a prefix whose marker name fits the buffer has a marker;
  if none has, and the marker name of some prefix reaches the capacity of the buffer, it
  returns \<open>-ENAMETOOLONG\<close>; otherwise 0.
\<close>

theorem path_hidden_results:
  "(\<not> cow_enabled uopt \<longrightarrow> path_hidden K uopt fs upath branch = Inr 0)
   \<and> (cow_enabled uopt \<and> 0 \<le> branch \<and> branch < nbranches uopt \<and>
        branch_layout K (branches uopt ! nat branch) \<and> NUL \<notin> set upath \<and>
        0 < PATHLEN_MAX K \<longrightarrow>
        (PATHLEN_MAX K < length (whiteout_base K (branches uopt ! nat branch) upath @ upath) + 1
            \<longrightarrow> path_hidden K uopt fs upath branch = Inr 0)
        \<and> (length (whiteout_base K (branches uopt ! nat branch) upath @ upath) + 1
              \<le> PATHLEN_MAX K
         \<longrightarrow> path_hidden K uopt fs upath branch =
           Inr (if \<exists>q\<in>set (path_prefixes upath).
                     length (whiteout_base K (branches uopt ! nat branch) upath @ q @ HIDETAG K)
                       < PATHLEN_MAX K \<and>
                     entries fs (whiteout_base K (branches uopt ! nat branch) upath @ q
                       @ HIDETAG K) \<noteq> None
                then 1
                else if \<exists>q\<in>set (path_prefixes upath).
                     PATHLEN_MAX K \<le>
                       length (whiteout_base K (branches uopt ! nat branch) upath @ q
                         @ HIDETAG K)
                then - ENAMETOOLONG
                else 0)))"
proof (intro conjI impI)
  assume "\<not> cow_enabled uopt"
  then show "path_hidden K uopt fs upath branch = Inr 0"
    by (simp add: path_hidden_def)
next
  assume a: "cow_enabled uopt \<and> 0 \<le> branch \<and> branch < nbranches uopt \<and>
        branch_layout K (branches uopt ! nat branch) \<and> NUL \<notin> set upath \<and>
        0 < PATHLEN_MAX K"
  then have e: "cow_enabled uopt" "0 \<le> branch" "branch < nbranches uopt"
    "branch_layout K (branches uopt ! nat branch)" "NUL \<notin> set upath" "0 < PATHLEN_MAX K"
    by simp_all
  note r = path_hidden_enabled_results [OF e, of fs]
  {
    assume "PATHLEN_MAX K
        < length (whiteout_base K (branches uopt ! nat branch) upath @ upath) + 1"
    with r show "path_hidden K uopt fs upath branch = Inr 0" by blast
  }
  {
    assume "length (whiteout_base K (branches uopt ! nat branch) upath @ upath) + 1
        \<le> PATHLEN_MAX K"
    with r show "path_hidden K uopt fs upath branch =
           Inr (if \<exists>q\<in>set (path_prefixes upath).
                     length (whiteout_base K (branches uopt ! nat branch) upath @ q @ HIDETAG K)
                       < PATHLEN_MAX K \<and>
                     entries fs (whiteout_base K (branches uopt ! nat branch) upath @ q
                       @ HIDETAG K) \<noteq> None
                then 1
                else if \<exists>q\<in>set (path_prefixes upath).
                     PATHLEN_MAX K \<le>
                       length (whiteout_base K (branches uopt ! nat branch) upath @ q
                         @ HIDETAG K)
                then - ENAMETOOLONG
                else 0)"
      by blast
  }
qed

theorem path_hidden_results_witness:
  "path_hidden unionfs_macros two_branches empty_fs (CHR ''/'' # replicate 1008 CHR ''b'') 0
     = Inr (- ENAMETOOLONG)
   \<and> path_hidden unionfs_macros two_branches empty_fs (CHR ''/'' # replicate 1100 CHR ''b'') 0
     = Inr 0
   \<and> path_hidden unionfs_macros (two_branches\<lparr>cow_enabled := False\<rparr>) empty_fs
       (CHR ''/'' # replicate 1008 CHR ''b'') 0 = Inr 0"
proof -
  have nul: "NUL \<notin> set (CHR ''/'' # replicate n CHR ''b'')" for n
    by (simp add: NUL_def)
  have pos: "0 < PATHLEN_MAX unionfs_macros" by (simp add: unionfs_macros_def)
  have lay: "branch_layout unionfs_macros (branches two_branches ! nat 0)"
    by (simp only: two_branches_first layout_rw)
  have hyp: "cow_enabled two_branches \<and> (0::int) \<le> 0 \<and> 0 < nbranches two_branches \<and>
      branch_layout unionfs_macros (branches two_branches ! nat 0) \<and>
      NUL \<notin> set (CHR ''/'' # replicate n CHR ''b'') \<and> 0 < PATHLEN_MAX unionfs_macros" for n
    using two_branches_first(1,2) lay nul pos by blast
  note r = path_hidden_results [of two_branches unionfs_macros _ _ 0,
      THEN conjunct2, rule_format, OF hyp, unfolded two_branches_first(3) base_rw_slash]
  have whole: "CHR ''/'' # replicate 1008 CHR ''b''
      \<in> set (path_prefixes (CHR ''/'' # replicate 1008 CHR ''b''))"
    by (rule whole_path_prefix) (simp_all add: SLASH_def)
  have a: "path_hidden unionfs_macros two_branches empty_fs
      (CHR ''/'' # replicate 1008 CHR ''b'') 0 = Inr (- ENAMETOOLONG)"
  proof -
    have "\<exists>q\<in>set (path_prefixes (CHR ''/'' # replicate 1008 CHR ''b'')).
        PATHLEN_MAX unionfs_macros \<le> length (''/rw/.unionfs'' @ q @ HIDETAG unionfs_macros)"
      using whole by (rule bexI [rotated]) (simp add: unionfs_macros_def)
    moreover have "length (''/rw/.unionfs'' @ (CHR ''/'' # replicate 1008 CHR ''b'')) + 1
        \<le> PATHLEN_MAX unionfs_macros"
      by (simp add: unionfs_macros_def)
    ultimately show ?thesis
      using r [of 1008 empty_fs] by (simp add: empty_fs_def)
  qed
  have b: "path_hidden unionfs_macros two_branches empty_fs
      (CHR ''/'' # replicate 1100 CHR ''b'') 0 = Inr 0"
    using r [of 1100 empty_fs] by (simp add: unionfs_macros_def)
  have c: "path_hidden unionfs_macros (two_branches\<lparr>cow_enabled := False\<rparr>) empty_fs
       (CHR ''/'' # replicate 1008 CHR ''b'') 0 = Inr 0"
    using path_hidden_results [of "two_branches\<lparr>cow_enabled := False\<rparr>" unionfs_macros
        empty_fs "CHR ''/'' # replicate 1008 CHR ''b''" 0]
    by simp
  from a b c show ?thesis by simp
qed

end
